theory Spec2Isabelle
  imports Main
begin


section \<open>The ReactiveTwitter contract (src/src/ReactiveTwitter.sol)\<close>

text \<open>
  A shallow embedding of the Solidity contract. Every \<open>uint256\<close> is a natural number;
  Solidity 0.8 checks its arithmetic, so an increment beyond \<open>2^256 - 1\<close>, a decrement
  below zero and an overflowing product revert with a panic, which the model returns as
  \<open>Inl Panic\<close>. A \<open>require\<close> that fails returns \<open>Inl\<close> of its own error. A reverted
  call leaves the storage as it was, so an operation is a function from the storage to
  \<open>error + state\<close>. A Solidity mapping is a total function whose default is the zero
  value. Events are not part of the storage and are left out.
\<close>

type_synonym address = nat

datatype error =
    OnlyOwner
  | NewOwnerZero
  | MessageDoesNotExist
  | NicknameEmpty
  | NicknameTooLong
  | NicknameInvalid
  | NicknameTaken
  | SetNicknameFirst
  | ProfileNotFound
  | MessageEmpty
  | MessageTooLong
  | PleaseWait
  | CreateProfileFirst
  | ProfileDeactivated
  | OriginalMessageDoesNotExist
  | NotAuthorized
  | AlreadyDeleted
  | TooManyRequested
  | PageSizeZero
  | PageSizeTooLarge
  | Panic

record Message =
  sender :: address
  content :: string
  timestamp :: nat
  nickname :: string
  replyToMessageId :: nat
  isDeleted :: bool

record UserProfile =
  profileNickname :: string
  avatarCode :: string
  isActive :: bool
  lastNicknameUpdate :: nat

record state =
  maxMessageLength :: nat
  messageCooldown :: nat
  maxReturnCount :: nat
  maxActiveMessages :: nat
  owner :: address
  messages :: "nat \<Rightarrow> Message"
  messageCount :: nat
  messageIdsByPeriod :: "nat \<Rightarrow> nat list"
  activeMessageCountByPeriod :: "nat \<Rightarrow> nat"
  periods :: "nat list"
  periodExists :: "nat \<Rightarrow> bool"
  senderToMessageIds :: "address \<Rightarrow> nat list"
  activeSenderMessageCount :: "address \<Rightarrow> nat"
  messageReplies :: "nat \<Rightarrow> nat list"
  activeReplyCount :: "nat \<Rightarrow> nat"
  nicknameToAddress :: "string \<Rightarrow> address"
  addressToProfile :: "address \<Rightarrow> UserProfile"
  lastMessageTime :: "address \<Rightarrow> nat"
  totalActiveMessages :: nat
  chronologicalMessageIds :: "nat list"
  messageIdToChronologicalIndex :: "nat \<Rightarrow> nat"

text \<open>The transaction context: \<open>msg.sender\<close> and \<open>block.timestamp\<close>.\<close>

record env =
  msg_sender :: address
  block_timestamp :: nat

definition PERIOD_SIZE :: nat where
  "PERIOD_SIZE = 100"

definition MAX_UINT256 :: nat where
  "MAX_UINT256 = 2 ^ 256 - 1"

text \<open>The zero values a mapping or a fresh memory array holds.\<close>

definition emptyMessage :: Message where
  "emptyMessage = \<lparr>sender = 0, content = [], timestamp = 0, nickname = [],
     replyToMessageId = 0, isDeleted = False\<rparr>"

definition emptyProfile :: UserProfile where
  "emptyProfile = \<lparr>profileNickname = [], avatarCode = [], isActive = False,
     lastNicknameUpdate = 0\<rparr>"

subsection \<open>Constructor\<close>

definition constructor :: "env \<Rightarrow> state" where
  "constructor e =
     \<lparr>maxMessageLength = 768, messageCooldown = 60, maxReturnCount = 50,
      maxActiveMessages = 500,
      owner = msg_sender e,
      messages = (\<lambda>_. emptyMessage)
        (0 := \<lparr>sender = 0, content = [], timestamp = block_timestamp e, nickname = [],
               replyToMessageId = 0, isDeleted = True\<rparr>),
      messageCount = 1,
      messageIdsByPeriod = (\<lambda>_. [])(0 := [0]),
      activeMessageCountByPeriod = (\<lambda>_. 0),
      periods = [0],
      periodExists = (\<lambda>_. False)(0 := True),
      senderToMessageIds = (\<lambda>_. []),
      activeSenderMessageCount = (\<lambda>_. 0),
      messageReplies = (\<lambda>_. []),
      activeReplyCount = (\<lambda>_. 0),
      nicknameToAddress = (\<lambda>_. 0),
      addressToProfile = (\<lambda>_. emptyProfile),
      lastMessageTime = (\<lambda>_. 0),
      totalActiveMessages = 0,
      chronologicalMessageIds = [0],
      messageIdToChronologicalIndex = (\<lambda>_. 0)\<rparr>"

subsection \<open>Administration\<close>

text \<open>
  \<open>_markMessageAsDeleted\<close>: returns at once on a deleted record; otherwise sets the flag
  and decrements the period counter (when the period exists), the sender counter, the
  parent's reply counter (when \<open>replyToMessageId \<noteq> 0\<close>) and the total. Each decrement is
  checked, so a counter at zero reverts the call.
\<close>

definition internal_markMessageAsDeleted :: "nat \<Rightarrow> state \<Rightarrow> error + state" where
  "internal_markMessageAsDeleted messageId s =
     (if isDeleted (messages s messageId) then Inr s
      else
        let period = messageId div PERIOD_SIZE;
            from = sender (messages s messageId);
            parent = replyToMessageId (messages s messageId)
        in
          if periodExists s period \<and> activeMessageCountByPeriod s period = 0 then Inl Panic
          else if activeSenderMessageCount s from = 0 then Inl Panic
          else if parent \<noteq> 0 \<and> activeReplyCount s parent = 0 then Inl Panic
          else if totalActiveMessages s = 0 then Inl Panic
          else Inr (s\<lparr>
            messages := (messages s)(messageId := (messages s messageId)\<lparr>isDeleted := True\<rparr>),
            activeMessageCountByPeriod :=
              (if periodExists s period
               then (activeMessageCountByPeriod s)
                      (period := activeMessageCountByPeriod s period - 1)
               else activeMessageCountByPeriod s),
            activeSenderMessageCount :=
              (activeSenderMessageCount s)(from := activeSenderMessageCount s from - 1),
            activeReplyCount :=
              (if parent \<noteq> 0
               then (activeReplyCount s)(parent := activeReplyCount s parent - 1)
               else activeReplyCount s),
            totalActiveMessages := totalActiveMessages s - 1\<rparr>))"

text \<open>
  The loop of \<open>deleteOldestMessages\<close>, over the entries of \<open>chronologicalMessageIds\<close>
  from index 1 on (the array is not written inside the loop, so the remaining entries
  are passed as a list). The result carries the storage, \<open>deletedCount\<close> and, as a
  ghost value the source does not keep, the ids handed to \<open>_markMessageAsDeleted\<close> in
  call order. \<open>deleteOldestMessages_log\<close> is the function with these two values still
  in its result (\<open>deletedCount\<close> is what the event \<open>OldMessagesDeleted\<close> reports);
  \<open>deleteOldestMessages\<close> returns the storage alone, as the source does.
\<close>

fun deleteLoop :: "nat list \<Rightarrow> nat \<Rightarrow> nat \<Rightarrow> nat list \<Rightarrow> state
    \<Rightarrow> error + (state \<times> nat \<times> nat list)" where
  "deleteLoop [] deletedCount maxToDelete evicted s = Inr (s, deletedCount, evicted)"
| "deleteLoop (messageId # rest) deletedCount maxToDelete evicted s =
     (if \<not> deletedCount < maxToDelete then Inr (s, deletedCount, evicted)
      else if \<not> isDeleted (messages s messageId)
              \<and> replyToMessageId (messages s messageId) = 0
      then (case internal_markMessageAsDeleted messageId s of
              Inl err \<Rightarrow> Inl err
            | Inr s1 \<Rightarrow>
                if deletedCount + 1 \<ge> maxToDelete
                then Inr (s1, deletedCount + 1, evicted @ [messageId])
                else deleteLoop rest (deletedCount + 1) maxToDelete (evicted @ [messageId]) s1)
      else deleteLoop rest deletedCount maxToDelete evicted s)"

definition deleteOldestMessages_log :: "nat \<Rightarrow> state \<Rightarrow> error + (state \<times> nat \<times> nat list)" where
  "deleteOldestMessages_log count s =
     (if count = 0 \<or> totalActiveMessages s = 0 then Inr (s, 0, [])
      else
        let maxToDelete =
              (if count < totalActiveMessages s then count else totalActiveMessages s)
        in deleteLoop (drop 1 (chronologicalMessageIds s)) 0 maxToDelete [] s)"

definition deleteOldestMessages :: "nat \<Rightarrow> state \<Rightarrow> error + state" where
  "deleteOldestMessages count s =
     (case deleteOldestMessages_log count s of
        Inl err \<Rightarrow> Inl err
      | Inr (s1, deletedCount, evicted) \<Rightarrow> Inr s1)"

definition updateParameters :: "env \<Rightarrow> nat \<Rightarrow> nat \<Rightarrow> nat \<Rightarrow> nat \<Rightarrow> state \<Rightarrow> error + state" where
  "updateParameters e newMaxMessageLength newMessageCooldown newMaxReturnCount
       newMaxActiveMessages s =
     (if msg_sender e \<noteq> owner s then Inl OnlyOwner
      else
        let s1 = s\<lparr>maxMessageLength := newMaxMessageLength,
                   messageCooldown := newMessageCooldown,
                   maxReturnCount := newMaxReturnCount,
                   maxActiveMessages := newMaxActiveMessages\<rparr>
        in if totalActiveMessages s1 > newMaxActiveMessages
           then deleteOldestMessages (totalActiveMessages s1 - newMaxActiveMessages) s1
           else Inr s1)"

definition transferOwnership :: "env \<Rightarrow> address \<Rightarrow> state \<Rightarrow> error + state" where
  "transferOwnership e newOwner s =
     (if msg_sender e \<noteq> owner s then Inl OnlyOwner
      else if newOwner = 0 then Inl NewOwnerZero
      else Inr (s\<lparr>owner := newOwner\<rparr>))"

subsection \<open>Profiles\<close>

text \<open>
  \<open>_validateNickname\<close>: every byte is a digit, a letter or the underscore. The loop
  returns \<open>false\<close> at the first other byte.
\<close>

definition allowedByte :: "char \<Rightarrow> bool" where
  "allowedByte c =
     (let b = (of_char c :: nat)
      in (48 \<le> b \<and> b \<le> 57) \<or> (65 \<le> b \<and> b \<le> 90) \<or> (97 \<le> b \<and> b \<le> 122) \<or> b = 95)"

fun validateNickname :: "string \<Rightarrow> bool" where
  "validateNickname [] = True"
| "validateNickname (c # cs) = (if \<not> allowedByte c then False else validateNickname cs)"

text \<open>
  The profile's \<open>nickname\<close> field is \<open>profileNickname\<close> here, since a record field of
  that name already belongs to \<open>Message\<close>.
\<close>

definition updateProfile :: "env \<Rightarrow> string \<Rightarrow> string \<Rightarrow> state \<Rightarrow> error + state" where
  "updateProfile e newNickname newAvatarCode s =
     (if \<not> length newNickname > 0 then Inl NicknameEmpty
      else if \<not> length newNickname \<le> 32 then Inl NicknameTooLong
      else if \<not> validateNickname newNickname then Inl NicknameInvalid
      else
        let existingAddress = nicknameToAddress s newNickname in
        if existingAddress \<noteq> 0 \<and> existingAddress \<noteq> msg_sender e then Inl NicknameTaken
        else
          let userProfile = addressToProfile s (msg_sender e);
              cleaned =
                (if length (profileNickname userProfile) > 0
                    \<and> nicknameToAddress s (profileNickname userProfile) = msg_sender e
                 then (nicknameToAddress s)(profileNickname userProfile := 0)
                 else nicknameToAddress s)
          in Inr (s\<lparr>
               addressToProfile := (addressToProfile s)
                 (msg_sender e := \<lparr>profileNickname = newNickname, avatarCode = newAvatarCode,
                    isActive = True, lastNicknameUpdate = block_timestamp e\<rparr>),
               nicknameToAddress := cleaned(newNickname := msg_sender e)\<rparr>))"

definition updateAvatar :: "env \<Rightarrow> string \<Rightarrow> state \<Rightarrow> error + state" where
  "updateAvatar e newAvatarCode s =
     (if \<not> length (profileNickname (addressToProfile s (msg_sender e))) > 0
      then Inl SetNicknameFirst
      else Inr (s\<lparr>addressToProfile := (addressToProfile s)
             (msg_sender e := (addressToProfile s (msg_sender e))\<lparr>avatarCode := newAvatarCode\<rparr>)\<rparr>))"

definition deactivateProfile :: "env \<Rightarrow> state \<Rightarrow> error + state" where
  "deactivateProfile e s =
     (if \<not> length (profileNickname (addressToProfile s (msg_sender e))) > 0
      then Inl ProfileNotFound
      else
        let currentNickname = profileNickname (addressToProfile s (msg_sender e)) in
        Inr (s\<lparr>
          nicknameToAddress :=
            (if nicknameToAddress s currentNickname = msg_sender e
             then (nicknameToAddress s)(currentNickname := 0)
             else nicknameToAddress s),
          addressToProfile := (addressToProfile s)
            (msg_sender e := (addressToProfile s (msg_sender e))\<lparr>isActive := False\<rparr>)\<rparr>))"

subsection \<open>Creating and deleting records\<close>

text \<open>
  The statements \<open>postMessage\<close> (lines 401 to 439) and \<open>replyToMessage\<close> (lines 477 to 519)
  share: take the next id, write the record, add the id to its period, to the sender's
  list and to the chronological array, count it, and stamp the sender's cooldown clock.
  \<open>replyTo\<close> is the record's \<open>replyToMessageId\<close>. Each increment is checked.
\<close>

definition appendMessage :: "env \<Rightarrow> string \<Rightarrow> nat \<Rightarrow> state \<Rightarrow> error + state" where
  "appendMessage e newContent replyTo s =
     (let messageId = messageCount s;
          period = messageId div PERIOD_SIZE;
          from = msg_sender e
      in
        if \<not> messageCount s < MAX_UINT256 then Inl Panic
        else if \<not> activeMessageCountByPeriod s period < MAX_UINT256 then Inl Panic
        else if \<not> activeSenderMessageCount s from < MAX_UINT256 then Inl Panic
        else if \<not> totalActiveMessages s < MAX_UINT256 then Inl Panic
        else Inr (s\<lparr>
          messageCount := messageCount s + 1,
          messages := (messages s)(messageId :=
            \<lparr>sender = from, content = newContent, timestamp = block_timestamp e,
             nickname = profileNickname (addressToProfile s from),
             replyToMessageId = replyTo, isDeleted = False\<rparr>),
          periods := (if \<not> periodExists s period then periods s @ [period] else periods s),
          periodExists := (periodExists s)(period := True),
          messageIdsByPeriod :=
            (messageIdsByPeriod s)(period := messageIdsByPeriod s period @ [messageId]),
          activeMessageCountByPeriod :=
            (activeMessageCountByPeriod s)(period := activeMessageCountByPeriod s period + 1),
          senderToMessageIds :=
            (senderToMessageIds s)(from := senderToMessageIds s from @ [messageId]),
          activeSenderMessageCount :=
            (activeSenderMessageCount s)(from := activeSenderMessageCount s from + 1),
          chronologicalMessageIds := chronologicalMessageIds s @ [messageId],
          messageIdToChronologicalIndex :=
            (messageIdToChronologicalIndex s)(messageId := length (chronologicalMessageIds s)),
          totalActiveMessages := totalActiveMessages s + 1,
          lastMessageTime := (lastMessageTime s)(from := block_timestamp e)\<rparr>))"

definition postMessage :: "env \<Rightarrow> string \<Rightarrow> state \<Rightarrow> error + state" where
  "postMessage e newContent s =
     (if \<not> length newContent > 0 then Inl MessageEmpty
      else if \<not> length newContent \<le> maxMessageLength s then Inl MessageTooLong
      else if block_timestamp e < lastMessageTime s (msg_sender e) then Inl Panic
      else if \<not> block_timestamp e - lastMessageTime s (msg_sender e) \<ge> messageCooldown s
        then Inl PleaseWait
      else if \<not> length (profileNickname (addressToProfile s (msg_sender e))) > 0
        then Inl CreateProfileFirst
      else if \<not> isActive (addressToProfile s (msg_sender e)) then Inl ProfileDeactivated
      else
        (case (if totalActiveMessages s \<ge> maxActiveMessages s
               then deleteOldestMessages 1 s else Inr s) of
           Inl err \<Rightarrow> Inl err
         | Inr s1 \<Rightarrow> appendMessage e newContent 0 s1))"

definition replyToMessage :: "env \<Rightarrow> nat \<Rightarrow> string \<Rightarrow> state \<Rightarrow> error + state" where
  "replyToMessage e replyTo newContent s =
     (if \<not> replyTo < messageCount s then Inl OriginalMessageDoesNotExist
      else if \<not> length newContent > 0 then Inl MessageEmpty
      else if \<not> length newContent \<le> maxMessageLength s then Inl MessageTooLong
      else if block_timestamp e < lastMessageTime s (msg_sender e) then Inl Panic
      else if \<not> block_timestamp e - lastMessageTime s (msg_sender e) \<ge> messageCooldown s
        then Inl PleaseWait
      else if \<not> length (profileNickname (addressToProfile s (msg_sender e))) > 0
        then Inl CreateProfileFirst
      else if \<not> isActive (addressToProfile s (msg_sender e)) then Inl ProfileDeactivated
      else
        (case (if totalActiveMessages s \<ge> maxActiveMessages s
               then deleteOldestMessages 1 s else Inr s) of
           Inl err \<Rightarrow> Inl err
         | Inr s1 \<Rightarrow>
             (case appendMessage e newContent replyTo s1 of
                Inl err \<Rightarrow> Inl err
              | Inr s2 \<Rightarrow>
                  if \<not> activeReplyCount s2 replyTo < MAX_UINT256 then Inl Panic
                  else Inr (s2\<lparr>
                    messageReplies :=
                      (messageReplies s2)(replyTo := messageReplies s2 replyTo @ [messageCount s1]),
                    activeReplyCount :=
                      (activeReplyCount s2)(replyTo := activeReplyCount s2 replyTo + 1)\<rparr>))))"

definition markMessageAsDeleted :: "env \<Rightarrow> nat \<Rightarrow> state \<Rightarrow> error + state" where
  "markMessageAsDeleted e messageId s =
     (if \<not> messageId < messageCount s then Inl MessageDoesNotExist
      else if \<not> (sender (messages s messageId) = msg_sender e \<or> msg_sender e = owner s)
        then Inl NotAuthorized
      else if isDeleted (messages s messageId) then Inl AlreadyDeleted
      else internal_markMessageAsDeleted messageId s)"

subsection \<open>Queries\<close>

text \<open>
  \<open>getLatestMessages\<close>: the result array has \<open>min count totalActiveMessages\<close> slots, each
  the zero record until the loop writes it. The loop runs over the chronological array
  from its last entry down to entry 0.
\<close>

fun latestLoop :: "nat list \<Rightarrow> nat \<Rightarrow> nat \<Rightarrow> Message list \<Rightarrow> state \<Rightarrow> Message list" where
  "latestLoop [] resultIndex resultCount result s = result"
| "latestLoop (i # rest) resultIndex resultCount result s =
     (if \<not> resultIndex < resultCount then result
      else
        let message = messages s i in
        if replyToMessageId message = 0 \<and> \<not> isDeleted message
        then latestLoop rest (resultIndex + 1) resultCount (result[resultIndex := message]) s
        else latestLoop rest resultIndex resultCount result s)"

definition getLatestMessages :: "nat \<Rightarrow> state \<Rightarrow> error + Message list" where
  "getLatestMessages count s =
     (if \<not> count \<le> maxReturnCount s then Inl TooManyRequested
      else
        let resultCount =
              (if count < totalActiveMessages s then count else totalActiveMessages s);
            result = replicate resultCount emptyMessage
        in if resultCount = 0 then Inr result
           else Inr (latestLoop (rev (chronologicalMessageIds s)) 0 resultCount result s))"

text \<open>
  \<open>getMessagesWithPagination\<close>: \<open>page * pageSize\<close> and \<open>startIndex + resultSize\<close> are
  checked. The result array has \<open>resultSize\<close> slots, cut to
  \<open>totalActiveMessages - startIndex\<close> on the last page.
\<close>

fun pageLoop :: "nat list \<Rightarrow> nat \<Rightarrow> nat \<Rightarrow> nat \<Rightarrow> nat \<Rightarrow> Message list \<Rightarrow> state
    \<Rightarrow> Message list" where
  "pageLoop [] activeCount resultIndex startIndex resultSize result s = result"
| "pageLoop (i # rest) activeCount resultIndex startIndex resultSize result s =
     (if \<not> resultIndex < resultSize then result
      else
        let message = messages s i in
        if replyToMessageId message = 0 \<and> \<not> isDeleted message
        then
          (let result1 = (if activeCount \<ge> startIndex
                          then result[resultIndex := message] else result);
               resultIndex1 = (if activeCount \<ge> startIndex
                               then resultIndex + 1 else resultIndex)
           in if activeCount + 1 \<ge> startIndex + resultSize then result1
              else pageLoop rest (activeCount + 1) resultIndex1 startIndex resultSize result1 s)
        else if activeCount \<ge> startIndex + resultSize then result
        else pageLoop rest activeCount resultIndex startIndex resultSize result s)"

definition getMessagesWithPagination :: "nat \<Rightarrow> nat \<Rightarrow> state \<Rightarrow> error + Message list" where
  "getMessagesWithPagination page pageSize s =
     (if \<not> pageSize > 0 then Inl PageSizeZero
      else if \<not> pageSize \<le> maxReturnCount s then Inl PageSizeTooLarge
      else if \<not> page * pageSize \<le> MAX_UINT256 then Inl Panic
      else
        let startIndex = page * pageSize in
        if startIndex \<ge> totalActiveMessages s then Inr []
        else if \<not> startIndex + pageSize \<le> MAX_UINT256 then Inl Panic
        else
          let resultSize =
                (if startIndex + pageSize > totalActiveMessages s
                 then totalActiveMessages s - startIndex else pageSize)
          in Inr (pageLoop (rev (chronologicalMessageIds s)) 0 0 startIndex resultSize
                    (replicate resultSize emptyMessage) s))"

subsection \<open>Public operations and reachable states\<close>

datatype operation =
    UpdateProfile string string
  | UpdateAvatar string
  | DeactivateProfile
  | PostMessage string
  | ReplyToMessage nat string
  | MarkMessageAsDeleted nat
  | UpdateParameters nat nat nat nat
  | TransferOwnership address

fun call :: "env \<Rightarrow> operation \<Rightarrow> state \<Rightarrow> error + state" where
  "call e (UpdateProfile n a) s = updateProfile e n a s"
| "call e (UpdateAvatar a) s = updateAvatar e a s"
| "call e DeactivateProfile s = deactivateProfile e s"
| "call e (PostMessage c) s = postMessage e c s"
| "call e (ReplyToMessage r c) s = replyToMessage e r c s"
| "call e (MarkMessageAsDeleted i) s = markMessageAsDeleted e i s"
| "call e (UpdateParameters a b c d) s = updateParameters e a b c d s"
| "call e (TransferOwnership a) s = transferOwnership e a s"

text \<open>A transaction: a successful call commits its storage, a reverted one changes nothing.\<close>

definition transact :: "env \<Rightarrow> operation \<Rightarrow> state \<Rightarrow> state" where
  "transact e op s = (case call e op s of Inl err \<Rightarrow> s | Inr s1 \<Rightarrow> s1)"

fun run :: "(env \<times> operation) list \<Rightarrow> state \<Rightarrow> state" where
  "run [] s = s"
| "run ((e, op) # rest) s = run rest (transact e op s)"

inductive reachable :: "state \<Rightarrow> bool" where
  reachable_init: "reachable (constructor e)"
| reachable_step: "reachable s \<Longrightarrow> call e op s = Inr s1 \<Longrightarrow> reachable s1"

section \<open>Properties of the store\<close>

subsection \<open>Consistency of the counters\<close>

text \<open>The ids of the records that exist and are not deleted.\<close>

definition live :: "state \<Rightarrow> nat set" where
  "live s = {i. i < messageCount s \<and> \<not> isDeleted (messages s i)}"

text \<open>
  The total, the period counters and the sender counters count the live records; a reply
  counter stays below the number of ids; the period of every id is registered.
\<close>

definition counters_ok :: "state \<Rightarrow> bool" where
  "counters_ok s \<longleftrightarrow>
     totalActiveMessages s = card (live s)
   \<and> (\<forall>p. activeMessageCountByPeriod s p = card {i \<in> live s. i div PERIOD_SIZE = p})
   \<and> (\<forall>a. activeSenderMessageCount s a = card {i \<in> live s. sender (messages s i) = a})
   \<and> (\<forall>q. activeReplyCount s q < messageCount s)
   \<and> (\<forall>i < messageCount s. periodExists s (i div PERIOD_SIZE))"

text \<open>The chronological array lists every id once, in order; record 0 is the deleted dummy.\<close>

definition chron_ok :: "state \<Rightarrow> bool" where
  "chron_ok s \<longleftrightarrow>
     chronologicalMessageIds s = [0..<messageCount s]
   \<and> 0 < messageCount s
   \<and> isDeleted (messages s 0)"

subsection \<open>Eviction, as the specification words it\<close>

text \<open>A record the eviction engine may delete: not deleted, and not a reply.\<close>

definition eligibleRecord :: "state \<Rightarrow> nat \<Rightarrow> bool" where
  "eligibleRecord s i \<longleftrightarrow>
     \<not> isDeleted (messages s i) \<and> replyToMessageId (messages s i) = 0"

text \<open>The eligible ids, oldest first.\<close>

definition eligible :: "state \<Rightarrow> nat list" where
  "eligible s = filter (eligibleRecord s) (chronologicalMessageIds s)"

text \<open>
  The specification's eviction of \<open>k\<close> slots: \<open>k\<close> times, soft-delete the oldest record
  that is eligible in the storage as it is at that moment, and stop early when none is
  left. The result carries the ids in the order they were deleted.
\<close>

fun evict_oldest_first :: "nat \<Rightarrow> state \<Rightarrow> error + (state \<times> nat list)" where
  "evict_oldest_first 0 s = Inr (s, [])"
| "evict_oldest_first (Suc k) s =
     (case eligible s of
        [] \<Rightarrow> Inr (s, [])
      | i # _ \<Rightarrow>
          (case internal_markMessageAsDeleted i s of
             Inl err \<Rightarrow> Inl err
           | Inr s1 \<Rightarrow>
               (case evict_oldest_first k s1 of
                  Inl err \<Rightarrow> Inl err
                | Inr (s2, log) \<Rightarrow> Inr (s2, i # log))))"

subsection \<open>What a step leaves alone\<close>

text \<open>
  \<open>sameFields s s1\<close>: from \<open>s\<close> to \<open>s1\<close> nothing but deletion flags and counters changed,
  and no flag went back to \<open>false\<close>.
\<close>

definition sameFields :: "state \<Rightarrow> state \<Rightarrow> bool" where
  "sameFields s s1 \<longleftrightarrow>
     messageCount s1 = messageCount s
   \<and> chronologicalMessageIds s1 = chronologicalMessageIds s
   \<and> maxActiveMessages s1 = maxActiveMessages s
   \<and> maxReturnCount s1 = maxReturnCount s
   \<and> addressToProfile s1 = addressToProfile s
   \<and> nicknameToAddress s1 = nicknameToAddress s
   \<and> messageReplies s1 = messageReplies s
   \<and> (\<forall>j. sender (messages s1 j) = sender (messages s j)
          \<and> content (messages s1 j) = content (messages s j)
          \<and> timestamp (messages s1 j) = timestamp (messages s j)
          \<and> nickname (messages s1 j) = nickname (messages s j)
          \<and> replyToMessageId (messages s1 j) = replyToMessageId (messages s j)
          \<and> (isDeleted (messages s j) \<longrightarrow> isDeleted (messages s1 j)))"

text \<open>\<open>repliesUntouched s s1\<close>: no reply changed its flag and no reply counter moved.\<close>

definition repliesUntouched :: "state \<Rightarrow> state \<Rightarrow> bool" where
  "repliesUntouched s s1 \<longleftrightarrow>
     activeReplyCount s1 = activeReplyCount s
   \<and> (\<forall>j. replyToMessageId (messages s j) \<noteq> 0
          \<longrightarrow> isDeleted (messages s1 j) = isDeleted (messages s j))"

subsection \<open>Invariants of the reachable storages\<close>

text \<open>The three checks \<open>updateProfile\<close> makes on a nickname.\<close>

definition acceptableNickname :: "string \<Rightarrow> bool" where
  "acceptableNickname n \<longleftrightarrow> 0 < length n \<and> length n \<le> 32 \<and> validateNickname n"

text \<open>An active profile carries a nickname that passed those checks.\<close>

definition profiles_ok :: "state \<Rightarrow> bool" where
  "profiles_ok s \<longleftrightarrow>
     (\<forall>a. isActive (addressToProfile s a)
        \<longrightarrow> acceptableNickname (profileNickname (addressToProfile s a)))"

text \<open>
  \<open>recordsKept s s1\<close>: every record of \<open>s\<close> is in \<open>s1\<close> with the same fields, and a
  deleted one is still deleted.
\<close>

definition recordsKept :: "state \<Rightarrow> state \<Rightarrow> bool" where
  "recordsKept s s1 \<longleftrightarrow>
     messageCount s \<le> messageCount s1
   \<and> (\<forall>i < messageCount s.
          sender (messages s1 i) = sender (messages s i)
        \<and> content (messages s1 i) = content (messages s i)
        \<and> timestamp (messages s1 i) = timestamp (messages s i)
        \<and> nickname (messages s1 i) = nickname (messages s i)
        \<and> replyToMessageId (messages s1 i) = replyToMessageId (messages s i)
        \<and> (isDeleted (messages s i) \<longrightarrow> isDeleted (messages s1 i)))"

text \<open>
  The period index, the sender index and the reply index of every parent but id 0 list
  the ids of their records in order, and the reply counter of every parent but id 0
  counts its live replies. (Id 0 is left out: \<open>replyToMessage\<close> accepts it as a parent.)
\<close>

definition indexes_ok :: "state \<Rightarrow> bool" where
  "indexes_ok s \<longleftrightarrow>
     (\<forall>p. messageIdsByPeriod s p = filter (\<lambda>i. i div PERIOD_SIZE = p) [0..<messageCount s])
   \<and> (\<forall>a. senderToMessageIds s a
          = filter (\<lambda>i. sender (messages s i) = a) [1..<messageCount s])
   \<and> (\<forall>q. q \<noteq> 0 \<longrightarrow> messageReplies s q
          = filter (\<lambda>i. replyToMessageId (messages s i) = q) [1..<messageCount s])
   \<and> (\<forall>q. q \<noteq> 0 \<longrightarrow> activeReplyCount s q
          = card {i \<in> live s. replyToMessageId (messages s i) = q})"

text \<open>The three invariants together.\<close>

definition consistent :: "state \<Rightarrow> bool" where
  "consistent s \<longleftrightarrow> counters_ok s \<and> chron_ok s \<and> profiles_ok s"

subsection \<open>Sequences of creates\<close>

fun isCreate :: "operation \<Rightarrow> bool" where
  "isCreate (PostMessage c) = True"
| "isCreate (ReplyToMessage r c) = True"
| "isCreate _ = False"

text \<open>
  \<open>createsWithRoom ops s\<close>: every operation of \<open>ops\<close> is a create, each one commits, and
  each one that finds the store at capacity also finds an eligible record to evict.
\<close>

fun createsWithRoom :: "(env \<times> operation) list \<Rightarrow> state \<Rightarrow> bool" where
  "createsWithRoom [] s = True"
| "createsWithRoom ((e, op) # rest) s =
     (isCreate op \<and>
      (case call e op s of
         Inl err \<Rightarrow> False
       | Inr s1 \<Rightarrow>
           (totalActiveMessages s < maxActiveMessages s \<or> eligible s \<noteq> [])
           \<and> createsWithRoom rest s1))"

subsection \<open>Handles\<close>


subsection \<open>The order of the checks of a create\<close>

text \<open>The error of the first check of a list that fails.\<close>

fun firstFailure :: "(bool \<times> error) list \<Rightarrow> error option" where
  "firstFailure [] = None"
| "firstFailure ((ok, err) # rest) = (if ok then firstFailure rest else Some err)"

text \<open>
  The checks of \<open>postMessage\<close> in the order of its \<open>require\<close> statements; the third entry
  is the checked subtraction inside the cooldown test. \<open>replyToMessage\<close> checks the parent
  id before all of them.
\<close>

definition createChecks :: "env \<Rightarrow> string \<Rightarrow> state \<Rightarrow> (bool \<times> error) list" where
  "createChecks e c s =
     [(0 < length c, MessageEmpty),
      (length c \<le> maxMessageLength s, MessageTooLong),
      (lastMessageTime s (msg_sender e) \<le> block_timestamp e, Panic),
      (messageCooldown s \<le> block_timestamp e - lastMessageTime s (msg_sender e), PleaseWait),
      (0 < length (profileNickname (addressToProfile s (msg_sender e))), CreateProfileFirst),
      (isActive (addressToProfile s (msg_sender e)), ProfileDeactivated)]"

definition replyChecks :: "env \<Rightarrow> nat \<Rightarrow> string \<Rightarrow> state \<Rightarrow> (bool \<times> error) list" where
  "replyChecks e r c s = (r < messageCount s, OriginalMessageDoesNotExist) # createChecks e c s"

subsection \<open>Concrete transactions and storages\<close>

definition deployer :: env where
  "deployer = \<lparr>msg_sender = 9, block_timestamp = 1000\<rparr>"

definition tx :: "address \<Rightarrow> nat \<Rightarrow> env" where
  "tx a t = \<lparr>msg_sender = a, block_timestamp = t\<rparr>"

text \<open>One author, one post (id 1) and one reply to it (id 2).\<close>

definition board_post_reply :: state where
  "board_post_reply =
     run [(tx 1 1000, UpdateProfile ''alice'' ''a''),
          (tx 1 1000, PostMessage ''hi''),
          (tx 1 2000, ReplyToMessage 1 ''yo'')] (constructor deployer)"

text \<open>Capacity 2 and capacity 1, one author, no record yet.\<close>

definition board_cap2 :: state where
  "board_cap2 =
     run [(tx 9 1000, UpdateParameters 768 60 50 2),
          (tx 1 1000, UpdateProfile ''alice'' ''a'')] (constructor deployer)"

definition board_cap1 :: state where
  "board_cap1 =
     run [(tx 9 1000, UpdateParameters 768 60 50 1),
          (tx 1 1000, UpdateProfile ''alice'' ''a'')] (constructor deployer)"

text \<open>At capacity 1: a post (id 1), then two replies to it (ids 2 and 3).\<close>

definition board_over :: state where
  "board_over =
     run [(tx 1 1000, PostMessage ''hi''),
          (tx 1 2000, ReplyToMessage 1 ''yo''),
          (tx 1 3000, ReplyToMessage 1 ''yo2'')] board_cap1"

text \<open>One author with a profile, no record yet.\<close>

definition board_alice :: state where
  "board_alice = run [(tx 1 1000, UpdateProfile ''alice'' ''a'')] (constructor deployer)"

text \<open>One author replies to id 0 (the reply gets id 1) and then deletes the reply.\<close>

definition board_sentinel_reply :: state where
  "board_sentinel_reply =
     run [(tx 1 1000, UpdateProfile ''alice'' ''a''),
          (tx 1 1000, ReplyToMessage 0 ''hi''),
          (tx 1 1000, MarkMessageAsDeleted 1)] (constructor deployer)"

section \<open>Lemmas\<close>

subsection \<open>Evaluation\<close>

text \<open>The equations that evaluate the model on a concrete storage.\<close>

lemmas model_defs =
  transact_def constructor_def updateProfile_def updateAvatar_def deactivateProfile_def
  allowedByte_def postMessage_def replyToMessage_def appendMessage_def
  markMessageAsDeleted_def internal_markMessageAsDeleted_def updateParameters_def
  transferOwnership_def deleteOldestMessages_def deleteOldestMessages_log_def
  getLatestMessages_def getMessagesWithPagination_def
  MAX_UINT256_def PERIOD_SIZE_def emptyProfile_def emptyMessage_def deployer_def tx_def

subsection \<open>Counting live records\<close>

lemma finite_live [simp]: "finite (live s)"
  by (simp add: live_def)

lemma card_live_le: "card (live s) \<le> messageCount s"
proof -
  have "live s \<subseteq> {..<messageCount s}" by (auto simp: live_def)
  then have "card (live s) \<le> card {..<messageCount s}" by (intro card_mono) auto
  then show ?thesis by simp
qed

lemma card_sub_live_le: "card {i \<in> live s. P i} \<le> messageCount s"
proof -
  have "card {i \<in> live s. P i} \<le> card (live s)" by (intro card_mono) auto
  then show ?thesis using card_live_le [of s] by linarith
qed

lemma counters_ok_constructor: "counters_ok (constructor e)"
  by (simp add: counters_ok_def constructor_def live_def)

lemma chron_ok_constructor: "chron_ok (constructor e)"
  by (simp add: chron_ok_def constructor_def)

subsection \<open>Soft-deleting one record\<close>

text \<open>What \<open>_markMessageAsDeleted\<close> leaves alone.\<close>

lemma mark_fields:
  assumes "internal_markMessageAsDeleted i s = Inr s1"
  shows "messageCount s1 = messageCount s"
    and "chronologicalMessageIds s1 = chronologicalMessageIds s"
    and "sender (messages s1 j) = sender (messages s j)"
    and "content (messages s1 j) = content (messages s j)"
    and "timestamp (messages s1 j) = timestamp (messages s j)"
    and "nickname (messages s1 j) = nickname (messages s j)"
    and "replyToMessageId (messages s1 j) = replyToMessageId (messages s j)"
    and "isDeleted (messages s1 j) = (isDeleted (messages s j) \<or> j = i)"
    and "maxActiveMessages s1 = maxActiveMessages s"
    and "addressToProfile s1 = addressToProfile s"
    and "nicknameToAddress s1 = nicknameToAddress s"
    and "messageReplies s1 = messageReplies s"
    and "maxReturnCount s1 = maxReturnCount s"
  using assms
  by (auto simp: internal_markMessageAsDeleted_def Let_def split: if_splits)

lemma mark_live:
  assumes "internal_markMessageAsDeleted i s = Inr s1"
  shows "live s1 = live s - {i}"
  using mark_fields(1,8) [OF assms] by (auto simp: live_def)

lemma mark_total:
  assumes "internal_markMessageAsDeleted i s = Inr s1" "\<not> isDeleted (messages s i)"
  shows "totalActiveMessages s1 = totalActiveMessages s - 1" "0 < totalActiveMessages s"
  using assms
  by (auto simp: internal_markMessageAsDeleted_def Let_def split: if_splits)

lemma card_remove_live:
  assumes "i \<in> live s" "P i"
  shows "card ({j \<in> live s. P j} - {i}) = card {j \<in> live s. P j} - 1"
    and "0 < card {j \<in> live s. P j}"
proof -
  have "i \<in> {j \<in> live s. P j}" using assms by simp
  then show "card ({j \<in> live s. P j} - {i}) = card {j \<in> live s. P j} - 1"
    by (simp add: card_Diff_singleton)
  show "0 < card {j \<in> live s. P j}"
    using assms by (auto simp: card_gt_0_iff)
qed

lemma mark_counters_ok:
  assumes m: "internal_markMessageAsDeleted i s = Inr s1"
    and i: "i < messageCount s" and ok: "counters_ok s"
  shows "counters_ok s1"
proof (cases "isDeleted (messages s i)")
  case True
  with m have "s1 = s" by (simp add: internal_markMessageAsDeleted_def)
  with ok show ?thesis by simp
next
  case False
  have lv: "live s1 = live s - {i}" by (rule mark_live [OF m])
  have il: "i \<in> live s" using False i by (simp add: live_def)
  have snd: "\<And>j. sender (messages s1 j) = sender (messages s j)"
    by (rule mark_fields(3) [OF m])
  have mc: "messageCount s1 = messageCount s" by (rule mark_fields(1) [OF m])
  have pe: "periodExists s (i div PERIOD_SIZE)"
    using ok i by (simp add: counters_ok_def)
  have tot: "totalActiveMessages s1 = card (live s1)"
    using mark_total [OF m False] ok il by (simp add: counters_ok_def lv)
  have per: "activeMessageCountByPeriod s1 p = card {j \<in> live s1. j div PERIOD_SIZE = p}" for p
  proof (cases "p = i div PERIOD_SIZE")
    case True
    have eq: "{j \<in> live s1. j div PERIOD_SIZE = p} = {j \<in> live s. j div PERIOD_SIZE = p} - {i}"
      using lv by auto
    have old: "activeMessageCountByPeriod s p = card {j \<in> live s. j div PERIOD_SIZE = p}"
      using ok by (simp add: counters_ok_def)
    have "activeMessageCountByPeriod s1 p = activeMessageCountByPeriod s p - 1"
      using m False True pe
      by (auto simp: internal_markMessageAsDeleted_def Let_def split: if_splits)
    then show ?thesis using eq card_remove_live(1) [OF il, of "\<lambda>j. j div PERIOD_SIZE = p"] old True
      by simp
  next
    case np: False
    have eq: "{j \<in> live s1. j div PERIOD_SIZE = p} = {j \<in> live s. j div PERIOD_SIZE = p}"
      using lv np by auto
    have "activeMessageCountByPeriod s1 p = activeMessageCountByPeriod s p"
      using m False np
      by (auto simp: internal_markMessageAsDeleted_def Let_def split: if_splits)
    then show ?thesis using eq ok by (simp add: counters_ok_def)
  qed
  have sen: "activeSenderMessageCount s1 a = card {j \<in> live s1. sender (messages s1 j) = a}" for a
  proof (cases "a = sender (messages s i)")
    case True
    have eq: "{j \<in> live s1. sender (messages s1 j) = a}
        = {j \<in> live s. sender (messages s j) = a} - {i}"
      using lv snd by auto
    have old: "activeSenderMessageCount s a = card {j \<in> live s. sender (messages s j) = a}"
      using ok by (simp add: counters_ok_def)
    have "activeSenderMessageCount s1 a = activeSenderMessageCount s a - 1"
      using m False True
      by (auto simp: internal_markMessageAsDeleted_def Let_def split: if_splits)
    then show ?thesis
      using eq card_remove_live(1) [OF il, of "\<lambda>j. sender (messages s j) = a"] old True
      by simp
  next
    case na: False
    have eq: "{j \<in> live s1. sender (messages s1 j) = a} = {j \<in> live s. sender (messages s j) = a}"
      using lv snd na by auto
    have "activeSenderMessageCount s1 a = activeSenderMessageCount s a"
      using m False na
      by (auto simp: internal_markMessageAsDeleted_def Let_def split: if_splits)
    then show ?thesis using eq ok by (simp add: counters_ok_def)
  qed
  have rep: "activeReplyCount s1 q < messageCount s1" for q
  proof -
    have "activeReplyCount s1 q \<le> activeReplyCount s q"
      using m False
      by (auto simp: internal_markMessageAsDeleted_def Let_def split: if_splits)
    moreover have "activeReplyCount s q < messageCount s"
      using ok by (simp add: counters_ok_def)
    ultimately show ?thesis using mc by simp
  qed
  have pex: "periodExists s1 (j div PERIOD_SIZE)" if "j < messageCount s1" for j
  proof -
    have "periodExists s1 = periodExists s"
      using m False
      by (auto simp: internal_markMessageAsDeleted_def Let_def split: if_splits)
    then show ?thesis using that ok mc by (simp add: counters_ok_def)
  qed
  show ?thesis
    unfolding counters_ok_def using tot per sen rep pex by blast
qed

lemma mark_chron_ok:
  assumes "internal_markMessageAsDeleted i s = Inr s1" "chron_ok s"
  shows "chron_ok s1"
  using assms mark_fields(1,2,8) [OF assms(1)] by (simp add: chron_ok_def)

text \<open>In a consistent state, deleting a live top-level record cannot underflow.\<close>

lemma mark_succeeds:
  assumes ok: "counters_ok s" and il: "i \<in> live s"
    and top: "replyToMessageId (messages s i) = 0"
  shows "\<exists>s1. internal_markMessageAsDeleted i s = Inr s1"
proof -
  have "0 < activeMessageCountByPeriod s (i div PERIOD_SIZE)"
    using ok card_remove_live(2) [OF il, of "\<lambda>j. j div PERIOD_SIZE = i div PERIOD_SIZE"]
    by (simp add: counters_ok_def)
  moreover have "0 < activeSenderMessageCount s (sender (messages s i))"
    using ok card_remove_live(2) [OF il, of "\<lambda>j. sender (messages s j) = sender (messages s i)"]
    by (simp add: counters_ok_def)
  moreover have "0 < totalActiveMessages s"
    using ok il by (auto simp: counters_ok_def card_gt_0_iff)
  ultimately show ?thesis
    using top by (simp add: internal_markMessageAsDeleted_def Let_def)
qed

subsection \<open>The eviction loop against the oldest-first procedure\<close>

lemma evict_none: "eligible s = [] \<Longrightarrow> evict_oldest_first k s = Inr (s, [])"
  by (cases k) simp_all

lemma mark_eligibleRecord:
  assumes "internal_markMessageAsDeleted i s = Inr s1"
  shows "eligibleRecord s1 j = (eligibleRecord s j \<and> j \<noteq> i)"
  using mark_fields(7,8) [OF assms] by (auto simp: eligibleRecord_def)

lemma deleteLoop_refines:
  assumes "chronologicalMessageIds s = pre @ xs"
    and "\<forall>i \<in> set pre. \<not> eligibleRecord s i"
  shows "deleteLoop xs d m ev s =
           (case evict_oldest_first (m - d) s of
              Inl err \<Rightarrow> Inl err
            | Inr (s1, log) \<Rightarrow> Inr (s1, d + length log, ev @ log))"
  using assms
proof (induction xs arbitrary: pre d ev s)
  case Nil
  then have "eligible s = []" by (simp add: eligible_def)
  then show ?case by (simp add: evict_none)
next
  case (Cons x rest)
  have el: "eligible s = filter (eligibleRecord s) (x # rest)"
    using Cons.prems by (simp add: eligible_def)
  show ?case
  proof (cases "d < m")
    case False
    then show ?thesis by simp
  next
    case dm: True
    then obtain k where k: "m - d = Suc k" by (cases "m - d") auto
    show ?thesis
    proof (cases "eligibleRecord s x")
      case False
      have pre': "chronologicalMessageIds s = (pre @ [x]) @ rest"
        using Cons.prems by simp
      have inel: "\<forall>i \<in> set (pre @ [x]). \<not> eligibleRecord s i"
        using Cons.prems False by simp
      have "deleteLoop (x # rest) d m ev s = deleteLoop rest d m ev s"
        using dm False by (auto simp: eligibleRecord_def)
      then show ?thesis using Cons.IH [OF pre' inel] by simp
    next
      case ex: True
      have hd: "eligible s = x # filter (eligibleRecord s) rest"
        using el ex by simp
      show ?thesis
      proof (cases "internal_markMessageAsDeleted x s")
        case (Inl err)
        then show ?thesis using dm ex hd k by (simp add: eligibleRecord_def)
      next
        case (Inr s1)
        have pre': "chronologicalMessageIds s1 = (pre @ [x]) @ rest"
          using Cons.prems mark_fields(2) [OF Inr] by simp
        have inel: "\<forall>i \<in> set (pre @ [x]). \<not> eligibleRecord s1 i"
          using Cons.prems by (simp add: mark_eligibleRecord [OF Inr])
        show ?thesis
        proof (cases "d + 1 \<ge> m")
          case True
          then have "k = 0" using k by simp
          then show ?thesis using dm ex hd k Inr True by (simp add: eligibleRecord_def)
        next
          case False
          then have k': "m - (d + 1) = k" using k by simp
          have "deleteLoop (x # rest) d m ev s = deleteLoop rest (d + 1) m (ev @ [x]) s1"
            using dm ex Inr False by (simp add: eligibleRecord_def)
          then show ?thesis
            using Cons.IH [OF pre' inel, of "d + 1" "ev @ [x]"] hd k Inr k'
            by (simp split: sum.splits prod.splits)
        qed
      qed
    qed
  qed
qed




lemma evict_succeeds:
  assumes "counters_ok s" "chron_ok s"
  shows "\<exists>r. evict_oldest_first k s = Inr r"
  using assms
proof (induction k arbitrary: s)
  case 0
  then show ?case by simp
next
  case (Suc k)
  show ?case
  proof (cases "eligible s")
    case Nil
    then show ?thesis by simp
  next
    case (Cons i es)
    then have "i \<in> set (eligible s)" by simp
    then have mem: "i \<in> set (chronologicalMessageIds s)" and el: "eligibleRecord s i"
      by (simp_all add: eligible_def)
    have lt: "i < messageCount s" using mem Suc.prems(2) by (simp add: chron_ok_def)
    then have il: "i \<in> live s" using el by (simp add: live_def eligibleRecord_def)
    obtain s1 where m: "internal_markMessageAsDeleted i s = Inr s1"
      using mark_succeeds [OF Suc.prems(1) il] el by (auto simp: eligibleRecord_def)
    have "counters_ok s1" by (rule mark_counters_ok [OF m lt Suc.prems(1)])
    moreover have "chron_ok s1" by (rule mark_chron_ok [OF m Suc.prems(2)])
    ultimately obtain r where "evict_oldest_first k s1 = Inr r" using Suc.IH by blast
    then show ?thesis using Cons m by (cases r) simp
  qed
qed

lemma evict_preserves:
  assumes "evict_oldest_first k s = Inr (s1, log)" "counters_ok s" "chron_ok s"
  shows "counters_ok s1 \<and> chron_ok s1"
  using assms
proof (induction k arbitrary: s log)
  case 0
  then show ?case by simp
next
  case (Suc k)
  show ?case
  proof (cases "eligible s")
    case Nil
    then show ?thesis using Suc.prems by simp
  next
    case (Cons i es)
    then obtain s2 where m: "internal_markMessageAsDeleted i s = Inr s2"
      using Suc.prems by (auto split: sum.splits)
    then obtain log2 where r: "evict_oldest_first k s2 = Inr (s1, log2)"
      using Suc.prems Cons by (auto split: sum.splits)
    have "i \<in> set (eligible s)" using Cons by simp
    then have "i < messageCount s" using Suc.prems(3) by (simp add: eligible_def chron_ok_def)
    then have "counters_ok s2" using mark_counters_ok [OF m] Suc.prems(2) by simp
    moreover have "chron_ok s2" by (rule mark_chron_ok [OF m Suc.prems(3)])
    ultimately show ?thesis using Suc.IH [OF r] by simp
  qed
qed

text \<open>The eviction engine in a state whose chronological array is in order.\<close>

lemma eligible_drop1:
  assumes "chron_ok s"
  shows "chronologicalMessageIds s = [0] @ drop 1 (chronologicalMessageIds s)"
    and "\<forall>i \<in> set [0]. \<not> eligibleRecord s i"
proof -
  have "[0..<messageCount s] = 0 # [1..<messageCount s]"
    using assms by (simp add: chron_ok_def upt_conv_Cons)
  then show "chronologicalMessageIds s = [0] @ drop 1 (chronologicalMessageIds s)"
    using assms by (simp add: chron_ok_def)
  show "\<forall>i \<in> set [0]. \<not> eligibleRecord s i"
    using assms by (simp add: chron_ok_def eligibleRecord_def)
qed

lemma deleteOldestMessages_log_refines:
  assumes "chron_ok s"
  shows "deleteOldestMessages_log n s =
           (case evict_oldest_first (min n (totalActiveMessages s)) s of
              Inl err \<Rightarrow> Inl err
            | Inr (s1, log) \<Rightarrow> Inr (s1, length log, log))"
proof (cases "n = 0 \<or> totalActiveMessages s = 0")
  case True
  then have "min n (totalActiveMessages s) = 0" by auto
  then show ?thesis using True by (simp add: deleteOldestMessages_log_def)
next
  case False
  have mn: "(if n < totalActiveMessages s then n else totalActiveMessages s)
      = min n (totalActiveMessages s)" by simp
  show ?thesis
    using False deleteLoop_refines [OF eligible_drop1 [OF assms],
        of 0 "min n (totalActiveMessages s)" "[]"]
    unfolding deleteOldestMessages_log_def Let_def mn
    by (simp split: sum.splits prod.splits)
qed


subsection \<open>Appending a record\<close>

text \<open>The common tail of the two create operations.\<close>

lemma append_fields:
  assumes "appendMessage e c r s = Inr s1"
  shows "messageCount s1 = messageCount s + 1"
    and "messages s1 = (messages s)(messageCount s :=
           \<lparr>sender = msg_sender e, content = c, timestamp = block_timestamp e,
            nickname = profileNickname (addressToProfile s (msg_sender e)),
            replyToMessageId = r, isDeleted = False\<rparr>)"
    and "chronologicalMessageIds s1 = chronologicalMessageIds s @ [messageCount s]"
    and "totalActiveMessages s1 = totalActiveMessages s + 1"
    and "maxActiveMessages s1 = maxActiveMessages s"
    and "activeReplyCount s1 = activeReplyCount s"
    and "messageReplies s1 = messageReplies s"
    and "addressToProfile s1 = addressToProfile s"
    and "nicknameToAddress s1 = nicknameToAddress s"
    and "maxReturnCount s1 = maxReturnCount s"
  using assms
  by (auto simp: appendMessage_def Let_def split: if_splits)

lemma append_live:
  assumes "appendMessage e c r s = Inr s1"
  shows "live s1 = insert (messageCount s) (live s)"
  using append_fields(1,2) [OF assms] by (auto simp: live_def)

lemma card_insert_live:
  assumes "P (messageCount s)" "\<And>j. j < messageCount s \<Longrightarrow> P j = Q j"
  shows "card {j \<in> insert (messageCount s) (live s). P j} = card {j \<in> live s. Q j} + 1"
proof -
  have "{j \<in> insert (messageCount s) (live s). P j} = insert (messageCount s) {j \<in> live s. Q j}"
    using assms by (auto simp: live_def)
  moreover have "messageCount s \<notin> {j \<in> live s. Q j}" by (simp add: live_def)
  moreover have "finite {j \<in> live s. Q j}" by simp
  ultimately show ?thesis by simp
qed

lemma card_keep_live:
  assumes "\<not> P (messageCount s)" "\<And>j. j < messageCount s \<Longrightarrow> P j = Q j"
  shows "card {j \<in> insert (messageCount s) (live s). P j} = card {j \<in> live s. Q j}"
proof -
  have "{j \<in> insert (messageCount s) (live s). P j} = {j \<in> live s. Q j}"
    using assms by (auto simp: live_def)
  then show ?thesis by simp
qed

lemma append_counters_ok:
  assumes a: "appendMessage e c r s = Inr s1" and ok: "counters_ok s"
  shows "counters_ok s1"
proof -
  have lv: "live s1 = insert (messageCount s) (live s)" by (rule append_live [OF a])
  have mc: "messageCount s1 = messageCount s + 1" by (rule append_fields(1) [OF a])
  have ms: "\<And>j. j < messageCount s \<Longrightarrow> messages s1 j = messages s j"
    using append_fields(2) [OF a] by simp
  have new: "sender (messages s1 (messageCount s)) = msg_sender e"
    using append_fields(2) [OF a] by simp
  have tot: "totalActiveMessages s1 = card (live s1)"
    using append_fields(4) [OF a] ok lv by (simp add: counters_ok_def live_def)
  have per: "activeMessageCountByPeriod s1 p = card {j \<in> live s1. j div PERIOD_SIZE = p}" for p
  proof (cases "p = messageCount s div PERIOD_SIZE")
    case True
    have "activeMessageCountByPeriod s1 p = activeMessageCountByPeriod s p + 1"
      using a True by (auto simp: appendMessage_def Let_def split: if_splits)
    then show ?thesis
      using card_insert_live [of "\<lambda>j. j div PERIOD_SIZE = p" s "\<lambda>j. j div PERIOD_SIZE = p"]
        True ok lv by (simp add: counters_ok_def)
  next
    case False
    have "activeMessageCountByPeriod s1 p = activeMessageCountByPeriod s p"
      using a False by (auto simp: appendMessage_def Let_def split: if_splits)
    then show ?thesis
      using card_keep_live [of "\<lambda>j. j div PERIOD_SIZE = p" s "\<lambda>j. j div PERIOD_SIZE = p"]
        False ok lv by (simp add: counters_ok_def)
  qed
  have sen: "activeSenderMessageCount s1 b = card {j \<in> live s1. sender (messages s1 j) = b}" for b
  proof (cases "b = msg_sender e")
    case True
    have "activeSenderMessageCount s1 b = activeSenderMessageCount s b + 1"
      using a True by (auto simp: appendMessage_def Let_def split: if_splits)
    then show ?thesis
      using card_insert_live [of "\<lambda>j. sender (messages s1 j) = b" s
          "\<lambda>j. sender (messages s j) = b"]
        True ok lv ms new by (simp add: counters_ok_def)
  next
    case False
    have "activeSenderMessageCount s1 b = activeSenderMessageCount s b"
      using a False by (auto simp: appendMessage_def Let_def split: if_splits)
    then show ?thesis
      using card_keep_live [of "\<lambda>j. sender (messages s1 j) = b" s
          "\<lambda>j. sender (messages s j) = b"]
        False ok lv ms new by (simp add: counters_ok_def)
  qed
  have rep: "activeReplyCount s1 q < messageCount s1" for q
    using append_fields(6) [OF a] mc ok by (simp add: counters_ok_def less_Suc_eq)
  have pex: "periodExists s1 (j div PERIOD_SIZE)" if "j < messageCount s1" for j
  proof -
    have "periodExists s1 = (periodExists s)(messageCount s div PERIOD_SIZE := True)"
      using a by (auto simp: appendMessage_def Let_def split: if_splits)
    then show ?thesis using that ok mc by (auto simp: counters_ok_def less_Suc_eq)
  qed
  show ?thesis
    unfolding counters_ok_def using tot per sen rep pex by blast
qed

lemma append_chron_ok:
  assumes "appendMessage e c r s = Inr s1" "chron_ok s"
  shows "chron_ok s1"
  using assms(2) append_fields(1,2,3) [OF assms(1)] by (simp add: chron_ok_def)

lemma append_succeeds:
  assumes ok: "counters_ok s" and lt: "messageCount s < MAX_UINT256"
  shows "\<exists>s1. appendMessage e c r s = Inr s1"
proof -
  have "totalActiveMessages s < MAX_UINT256"
    using ok card_live_le [of s] lt by (simp add: counters_ok_def)
  moreover have "activeMessageCountByPeriod s p < MAX_UINT256" for p
    using ok card_sub_live_le [of s "\<lambda>j. j div PERIOD_SIZE = p"] lt by (simp add: counters_ok_def)
  moreover have "activeSenderMessageCount s b < MAX_UINT256" for b
    using ok card_sub_live_le [of s "\<lambda>j. sender (messages s j) = b"] lt
    by (simp add: counters_ok_def)
  ultimately show ?thesis using lt by (simp add: appendMessage_def Let_def)
qed

subsection \<open>The frame of an eviction\<close>

lemma sameFields_refl: "sameFields s s"
  by (simp add: sameFields_def)

lemma sameFields_trans: "sameFields s s1 \<Longrightarrow> sameFields s1 s2 \<Longrightarrow> sameFields s s2"
  by (simp add: sameFields_def)

lemma mark_sameFields:
  assumes "internal_markMessageAsDeleted i s = Inr s1"
  shows "sameFields s s1"
  unfolding sameFields_def using mark_fields [OF assms] by simp

lemma repliesUntouched_refl: "repliesUntouched s s"
  by (simp add: repliesUntouched_def)

lemma repliesUntouched_trans:
  "repliesUntouched s s1 \<Longrightarrow> sameFields s s1 \<Longrightarrow> repliesUntouched s1 s2
     \<Longrightarrow> repliesUntouched s s2"
  by (simp add: repliesUntouched_def sameFields_def)

lemma mark_repliesUntouched:
  assumes "internal_markMessageAsDeleted i s = Inr s1" "replyToMessageId (messages s i) = 0"
  shows "repliesUntouched s s1"
proof -
  have "activeReplyCount s1 = activeReplyCount s"
    using assms by (auto simp: internal_markMessageAsDeleted_def Let_def split: if_splits)
  moreover have "isDeleted (messages s1 j) = isDeleted (messages s j)"
    if "replyToMessageId (messages s j) \<noteq> 0" for j
    using that assms(2) mark_fields(8) [OF assms(1), of j] by auto
  ultimately show ?thesis by (simp add: repliesUntouched_def)
qed

lemma deleteLoop_frame:
  assumes "deleteLoop xs d m ev s = Inr (s1, d1, ev1)"
  shows "sameFields s s1 \<and> repliesUntouched s s1"
  using assms
proof (induction xs arbitrary: d ev s)
  case Nil
  then show ?case by (simp add: sameFields_refl repliesUntouched_refl)
next
  case (Cons x rest)
  show ?case
  proof (cases "d < m")
    case False
    then show ?thesis using Cons.prems by (simp add: sameFields_refl repliesUntouched_refl)
  next
    case dm: True
    show ?thesis
    proof (cases "\<not> isDeleted (messages s x) \<and> replyToMessageId (messages s x) = 0")
      case False
      then have "deleteLoop rest d m ev s = Inr (s1, d1, ev1)"
        using Cons.prems dm by auto
      then show ?thesis by (rule Cons.IH)
    next
      case ex: True
      then obtain s2 where m: "internal_markMessageAsDeleted x s = Inr s2"
        using Cons.prems dm by (auto split: sum.splits)
      have f: "sameFields s s2" by (rule mark_sameFields [OF m])
      have r: "repliesUntouched s s2" using mark_repliesUntouched [OF m] ex by simp
      show ?thesis
      proof (cases "d + 1 \<ge> m")
        case True
        then have "s1 = s2" using Cons.prems dm ex m by simp
        then show ?thesis using f r by simp
      next
        case False
        then have "deleteLoop rest (d + 1) m (ev @ [x]) s2 = Inr (s1, d1, ev1)"
          using Cons.prems dm ex m by simp
        then have "sameFields s2 s1 \<and> repliesUntouched s2 s1" by (rule Cons.IH)
        then show ?thesis
          using f r sameFields_trans [of s s2 s1] repliesUntouched_trans [of s s2 s1] by blast
      qed
    qed
  qed
qed

lemma deleteOldestMessages_frame:
  assumes "deleteOldestMessages n s = Inr s1"
  shows "sameFields s s1 \<and> repliesUntouched s s1"
proof (cases "n = 0 \<or> totalActiveMessages s = 0")
  case True
  then have "s1 = s"
    using assms by (simp add: deleteOldestMessages_def deleteOldestMessages_log_def)
  then show ?thesis by (simp add: sameFields_refl repliesUntouched_refl)
next
  case False
  then obtain d1 ev1 where
    "deleteLoop (drop 1 (chronologicalMessageIds s)) 0
       (if n < totalActiveMessages s then n else totalActiveMessages s) [] s = Inr (s1, d1, ev1)"
    using assms
    by (auto simp: deleteOldestMessages_def deleteOldestMessages_log_def Let_def
        split: sum.splits)
  then show ?thesis by (rule deleteLoop_frame)
qed

subsection \<open>Every reachable storage is consistent\<close>

lemma deleteOldestMessages_evict:
  assumes "chron_ok s"
  shows "deleteOldestMessages n s =
           (case evict_oldest_first (min n (totalActiveMessages s)) s of
              Inl err \<Rightarrow> Inl err
            | Inr (s1, log) \<Rightarrow> Inr s1)"
  unfolding deleteOldestMessages_def deleteOldestMessages_log_refines [OF assms]
  by (simp split: sum.splits prod.splits)

lemma deleteOldestMessages_consistent:
  assumes d: "deleteOldestMessages n s = Inr s1" and c: "consistent s"
  shows "consistent s1"
proof -
  have ch: "chron_ok s" using c by (simp add: consistent_def)
  obtain log where "evict_oldest_first (min n (totalActiveMessages s)) s = Inr (s1, log)"
    using d deleteOldestMessages_evict [OF ch, of n] by (auto split: sum.splits prod.splits)
  then have "counters_ok s1 \<and> chron_ok s1"
    using evict_preserves c by (simp add: consistent_def)
  moreover have "addressToProfile s1 = addressToProfile s"
    using deleteOldestMessages_frame [OF d] by (simp add: sameFields_def)
  ultimately show ?thesis using c by (simp add: consistent_def profiles_ok_def)
qed

lemma deleteOldestMessages_succeeds:
  assumes "consistent s"
  shows "\<exists>s1. deleteOldestMessages n s = Inr s1"
proof -
  have ch: "chron_ok s" and co: "counters_ok s" using assms by (simp_all add: consistent_def)
  obtain r where "evict_oldest_first (min n (totalActiveMessages s)) s = Inr r"
    using evict_succeeds [OF co ch] by blast
  then show ?thesis using deleteOldestMessages_evict [OF ch, of n] by (cases r) simp
qed

lemma append_consistent:
  assumes a: "appendMessage e c r s = Inr s1" and c: "consistent s"
  shows "consistent s1"
  using append_counters_ok [OF a] append_chron_ok [OF a] append_fields(8) [OF a] c
  by (simp add: consistent_def profiles_ok_def)

lemma consistent_config:
  "consistent (s\<lparr>maxMessageLength := a, messageCooldown := b, maxReturnCount := c,
       maxActiveMessages := d\<rparr>) = consistent s"
  by (simp add: consistent_def counters_ok_def chron_ok_def profiles_ok_def live_def)

lemma consistent_owner: "consistent (s\<lparr>owner := a\<rparr>) = consistent s"
  by (simp add: consistent_def counters_ok_def chron_ok_def profiles_ok_def live_def)

lemma consistent_constructor: "consistent (constructor e)"
  using counters_ok_constructor [of e] chron_ok_constructor [of e]
  by (simp add: consistent_def profiles_ok_def constructor_def emptyProfile_def)

lemma postMessage_consistent:
  assumes p: "postMessage e c s = Inr s1" and c: "consistent s"
  shows "consistent s1"
proof -
  obtain s2 where ev: "(if totalActiveMessages s \<ge> maxActiveMessages s
        then deleteOldestMessages 1 s else Inr s) = Inr s2"
    and a: "appendMessage e c 0 s2 = Inr s1"
    using p by (auto simp: postMessage_def split: if_splits sum.splits)
  have "consistent s2"
    using ev c deleteOldestMessages_consistent [of 1 s s2] by (auto split: if_splits)
  then show ?thesis by (rule append_consistent [OF a])
qed

lemma replyToMessage_consistent:
  assumes p: "replyToMessage e r c s = Inr s1" and c: "consistent s"
  shows "consistent s1"
proof -
  obtain s2 s3 where ev: "(if totalActiveMessages s \<ge> maxActiveMessages s
        then deleteOldestMessages 1 s else Inr s) = Inr s2"
    and a: "appendMessage e c r s2 = Inr s3"
    and s1: "s1 = s3\<lparr>
        messageReplies := (messageReplies s3)(r := messageReplies s3 r @ [messageCount s2]),
        activeReplyCount := (activeReplyCount s3)(r := activeReplyCount s3 r + 1)\<rparr>"
    using p by (auto simp: replyToMessage_def split: if_splits sum.splits)
  have c2: "consistent s2"
    using ev c deleteOldestMessages_consistent [of 1 s s2] by (auto split: if_splits)
  have c3: "consistent s3" by (rule append_consistent [OF a c2])
  have "activeReplyCount s3 r < messageCount s2"
    using c2 append_fields(6) [OF a] by (simp add: consistent_def counters_ok_def)
  then have "activeReplyCount s3 r + 1 < messageCount s3"
    using append_fields(1) [OF a] by simp
  then show ?thesis
    using c3 unfolding s1 by (simp add: consistent_def counters_ok_def chron_ok_def
        profiles_ok_def live_def)
qed

lemma markMessageAsDeleted_consistent:
  assumes p: "markMessageAsDeleted e i s = Inr s1" and c: "consistent s"
  shows "consistent s1"
proof -
  have m: "internal_markMessageAsDeleted i s = Inr s1" and lt: "i < messageCount s"
    using p by (auto simp: markMessageAsDeleted_def split: if_splits)
  show ?thesis
    using mark_counters_ok [OF m lt] mark_chron_ok [OF m] mark_fields(10) [OF m] c
    by (simp add: consistent_def profiles_ok_def)
qed

lemma updateParameters_consistent:
  assumes p: "updateParameters e a b c d s = Inr s1" and co: "consistent s"
  shows "consistent s1"
  using p co
  by (auto simp: updateParameters_def Let_def consistent_config split: if_splits
      intro: deleteOldestMessages_consistent)

lemma updateProfile_consistent:
  assumes p: "updateProfile e n a s = Inr s1" and c: "consistent s"
  shows "consistent s1"
  using p c
  by (auto simp: updateProfile_def Let_def consistent_def counters_ok_def chron_ok_def
      profiles_ok_def live_def acceptableNickname_def split: if_splits)

lemma updateAvatar_consistent:
  assumes p: "updateAvatar e a s = Inr s1" and c: "consistent s"
  shows "consistent s1"
  using p c
  by (auto simp: updateAvatar_def consistent_def counters_ok_def chron_ok_def
      profiles_ok_def live_def split: if_splits)

lemma deactivateProfile_consistent:
  assumes p: "deactivateProfile e s = Inr s1" and c: "consistent s"
  shows "consistent s1"
  using p c
  by (auto simp: deactivateProfile_def Let_def consistent_def counters_ok_def chron_ok_def
      profiles_ok_def live_def split: if_splits)

lemma transferOwnership_consistent:
  assumes p: "transferOwnership e a s = Inr s1" and c: "consistent s"
  shows "consistent s1"
  using p c
  by (auto simp: transferOwnership_def consistent_owner split: if_splits)

lemma call_consistent:
  assumes "call e op s = Inr s1" "consistent s"
  shows "consistent s1"
  using assms
  by (cases op)
    (auto intro: updateProfile_consistent updateAvatar_consistent deactivateProfile_consistent
      postMessage_consistent replyToMessage_consistent markMessageAsDeleted_consistent
      updateParameters_consistent transferOwnership_consistent)

lemma reachable_consistent: "reachable s \<Longrightarrow> consistent s"
  by (induction rule: reachable.induct) (auto intro: consistent_constructor call_consistent)

lemma reachable_transact: "reachable s \<Longrightarrow> reachable (transact e op s)"
  by (cases "call e op s") (auto simp: transact_def intro: reachable_step)

lemma reachable_run: "reachable s \<Longrightarrow> reachable (run ops s)"
proof (induction ops arbitrary: s)
  case Nil
  then show ?case by simp
next
  case (Cons x ops)
  obtain e op where x: "x = (e, op)" by (cases x)
  have "reachable (transact e op s)" by (rule reachable_transact [OF Cons.prems])
  then show ?case using Cons.IH x by simp
qed

subsection \<open>The total across a create\<close>

lemma postMessage_steps:
  assumes "postMessage e c s = Inr s1"
  shows "\<exists>s2. (if totalActiveMessages s \<ge> maxActiveMessages s
            then deleteOldestMessages 1 s else Inr s) = Inr s2
          \<and> appendMessage e c 0 s2 = Inr s1"
  using assms by (auto simp: postMessage_def split: if_splits sum.splits)

lemma replyToMessage_steps:
  assumes "replyToMessage e r c s = Inr s1"
  shows "\<exists>s2 s3. (if totalActiveMessages s \<ge> maxActiveMessages s
            then deleteOldestMessages 1 s else Inr s) = Inr s2
          \<and> appendMessage e c r s2 = Inr s3
          \<and> activeReplyCount s3 r < MAX_UINT256
          \<and> s1 = s3\<lparr>
                messageReplies := (messageReplies s3)(r := messageReplies s3 r @ [messageCount s2]),
                activeReplyCount := (activeReplyCount s3)(r := activeReplyCount s3 r + 1)\<rparr>"
  using assms by (auto simp: replyToMessage_def split: if_splits sum.splits)

lemma eligible_live:
  assumes "chron_ok s" "eligible s = i # es"
  shows "i \<in> live s" "eligibleRecord s i"
proof -
  have "i \<in> set (eligible s)" using assms(2) by simp
  then show "eligibleRecord s i" and "i \<in> live s"
    using assms(1) by (simp_all add: eligible_def chron_ok_def live_def eligibleRecord_def)
qed

lemma evictOne_total:
  assumes d: "deleteOldestMessages 1 s = Inr s2" and c: "consistent s"
  shows "totalActiveMessages s2 =
           (if eligible s \<noteq> [] then totalActiveMessages s - 1 else totalActiveMessages s)"
    and "eligible s \<noteq> [] \<Longrightarrow> 0 < totalActiveMessages s"
proof -
  have ch: "chron_ok s" and co: "counters_ok s" using c by (simp_all add: consistent_def)
  have ev: "(case evict_oldest_first (min 1 (totalActiveMessages s)) s of
              Inl err \<Rightarrow> Inl err | Inr (s1, log) \<Rightarrow> Inr s1) = Inr s2"
    using d deleteOldestMessages_evict [OF ch, of 1] by simp
  show pos: "0 < totalActiveMessages s" if ne: "eligible s \<noteq> []"
  proof -
    obtain i es where "eligible s = i # es" using ne by (cases "eligible s") auto
    then have "i \<in> live s" using eligible_live(1) [OF ch] by simp
    then show ?thesis using co by (auto simp: counters_ok_def card_gt_0_iff)
  qed
  show "totalActiveMessages s2 =
           (if eligible s \<noteq> [] then totalActiveMessages s - 1 else totalActiveMessages s)"
  proof (cases "eligible s")
    case Nil
    then show ?thesis using ev by (simp add: evict_none)
  next
    case (Cons i es)
    then have m1: "min 1 (totalActiveMessages s) = Suc 0" using pos by simp
    obtain s3 where m: "internal_markMessageAsDeleted i s = Inr s3"
      using ev Cons unfolding m1 by (auto split: sum.splits)
    then have "s2 = s3" using ev Cons unfolding m1 by simp
    moreover have "\<not> isDeleted (messages s i)"
      using eligible_live(2) [OF ch Cons] by (simp add: eligibleRecord_def)
    ultimately show ?thesis using mark_total(1) [OF m] Cons by simp
  qed
qed

lemma evictIfFull_total:
  assumes ev: "(if totalActiveMessages s \<ge> maxActiveMessages s
        then deleteOldestMessages 1 s else Inr s) = Inr s2" and c: "consistent s"
  shows "totalActiveMessages s2 + 1 =
           (if totalActiveMessages s \<ge> maxActiveMessages s \<and> eligible s \<noteq> []
            then totalActiveMessages s else totalActiveMessages s + 1)"
    and "maxActiveMessages s2 = maxActiveMessages s"
proof -
  show "maxActiveMessages s2 = maxActiveMessages s"
    using ev deleteOldestMessages_frame [of 1 s s2]
    by (auto simp: sameFields_def split: if_splits)
  show "totalActiveMessages s2 + 1 =
           (if totalActiveMessages s \<ge> maxActiveMessages s \<and> eligible s \<noteq> []
            then totalActiveMessages s else totalActiveMessages s + 1)"
  proof (cases "totalActiveMessages s \<ge> maxActiveMessages s")
    case True
    then have d: "deleteOldestMessages 1 s = Inr s2" using ev by simp
    show ?thesis using evictOne_total [OF d c] True by auto
  next
    case False
    then show ?thesis using ev by simp
  qed
qed

lemma create_total:
  assumes cr: "isCreate op" and ca: "call e op s = Inr s1" and c: "consistent s"
  shows "totalActiveMessages s1 =
           (if totalActiveMessages s \<ge> maxActiveMessages s \<and> eligible s \<noteq> []
            then totalActiveMessages s else totalActiveMessages s + 1)"
    and "maxActiveMessages s1 = maxActiveMessages s"
proof -
  have "\<exists>s2 s3 r co. (if totalActiveMessages s \<ge> maxActiveMessages s
        then deleteOldestMessages 1 s else Inr s) = Inr s2
      \<and> appendMessage e co r s2 = Inr s3
      \<and> totalActiveMessages s1 = totalActiveMessages s3
      \<and> maxActiveMessages s1 = maxActiveMessages s3"
  proof (cases op)
    case (PostMessage co)
    then have "postMessage e co s = Inr s1" using ca by simp
    then show ?thesis using postMessage_steps by blast
  next
    case (ReplyToMessage r co)
    then have "replyToMessage e r co s = Inr s1" using ca by simp
    from replyToMessage_steps [OF this] show ?thesis by force
  qed (use cr in simp_all)
  then obtain s2 s3 r co where ev: "(if totalActiveMessages s \<ge> maxActiveMessages s
        then deleteOldestMessages 1 s else Inr s) = Inr s2"
    and a: "appendMessage e co r s2 = Inr s3"
    and t: "totalActiveMessages s1 = totalActiveMessages s3"
    and m: "maxActiveMessages s1 = maxActiveMessages s3" by blast
  show "totalActiveMessages s1 =
           (if totalActiveMessages s \<ge> maxActiveMessages s \<and> eligible s \<noteq> []
            then totalActiveMessages s else totalActiveMessages s + 1)"
    using evictIfFull_total(1) [OF ev c] append_fields(4) [OF a] t by simp
  show "maxActiveMessages s1 = maxActiveMessages s"
    using evictIfFull_total(2) [OF ev c] append_fields(5) [OF a] m by simp
qed

subsection \<open>Replying to id 0\<close>

lemma latestLoop_newest:
  assumes "replyToMessageId (messages s i) = 0" "\<not> isDeleted (messages s i)"
  shows "latestLoop (i # rest) 0 1 [emptyMessage] s = [messages s i]"
proof -
  have "latestLoop rest 1 1 [messages s i] s = [messages s i]"
    by (cases rest) simp_all
  then show ?thesis using assms by simp
qed

lemma evictIfFull_succeeds:
  assumes "consistent s"
  shows "\<exists>s2. (if totalActiveMessages s \<ge> maxActiveMessages s
            then deleteOldestMessages 1 s else Inr s) = Inr s2"
proof (cases "totalActiveMessages s \<ge> maxActiveMessages s")
  case True
  then show ?thesis using deleteOldestMessages_succeeds [OF assms, of 1] by simp
next
  case False
  then show ?thesis by simp
qed

subsection \<open>Records are kept\<close>

lemma recordsKept_refl: "recordsKept s s"
  by (simp add: recordsKept_def)

lemma recordsKept_trans: "recordsKept s s1 \<Longrightarrow> recordsKept s1 s2 \<Longrightarrow> recordsKept s s2"
  by (auto simp: recordsKept_def)

lemma sameFields_recordsKept: "sameFields s s1 \<Longrightarrow> recordsKept s s1"
  by (simp add: sameFields_def recordsKept_def)

lemma append_recordsKept:
  assumes "appendMessage e c r s = Inr s1"
  shows "recordsKept s s1"
  using append_fields(1,2) [OF assms] by (simp add: recordsKept_def)

lemma evictIfFull_recordsKept:
  assumes "(if totalActiveMessages s \<ge> maxActiveMessages s
            then deleteOldestMessages 1 s else Inr s) = Inr s2"
  shows "recordsKept s s2"
  using assms deleteOldestMessages_frame [of 1 s s2]
  by (auto simp: recordsKept_refl sameFields_recordsKept split: if_splits)

lemma postMessage_recordsKept:
  assumes "postMessage e c s = Inr s1"
  shows "recordsKept s s1"
  using postMessage_steps [OF assms] evictIfFull_recordsKept append_recordsKept
    recordsKept_trans by blast

lemma replyToMessage_recordsKept:
  assumes "replyToMessage e r c s = Inr s1"
  shows "recordsKept s s1"
proof -
  obtain s2 s3 where ev: "(if totalActiveMessages s \<ge> maxActiveMessages s
            then deleteOldestMessages 1 s else Inr s) = Inr s2"
    and a: "appendMessage e c r s2 = Inr s3"
    and s1: "s1 = s3\<lparr>
        messageReplies := (messageReplies s3)(r := messageReplies s3 r @ [messageCount s2]),
        activeReplyCount := (activeReplyCount s3)(r := activeReplyCount s3 r + 1)\<rparr>"
    using replyToMessage_steps [OF assms] by blast
  have "recordsKept s s3"
    using evictIfFull_recordsKept [OF ev] append_recordsKept [OF a] recordsKept_trans by blast
  then show ?thesis unfolding s1 by (simp add: recordsKept_def)
qed

lemma updateParameters_recordsKept:
  assumes "updateParameters e a b c d s = Inr s1"
  shows "recordsKept s s1"
proof -
  define s0 where "s0 = s\<lparr>maxMessageLength := a, messageCooldown := b, maxReturnCount := c,
       maxActiveMessages := d\<rparr>"
  have k0: "recordsKept s s0" by (simp add: recordsKept_def s0_def)
  have "s1 = s0 \<or> (\<exists>n. deleteOldestMessages n s0 = Inr s1)"
    using assms by (auto simp: updateParameters_def Let_def s0_def split: if_splits)
  then have "recordsKept s0 s1"
    using deleteOldestMessages_frame sameFields_recordsKept recordsKept_refl by blast
  then show ?thesis using k0 recordsKept_trans by blast
qed

lemma call_recordsKept:
  assumes "call e op s = Inr s1"
  shows "recordsKept s s1"
proof (cases op)
  case (UpdateProfile n a)
  then show ?thesis
    using assms by (auto simp: updateProfile_def Let_def recordsKept_def split: if_splits)
next
  case (UpdateAvatar a)
  then show ?thesis
    using assms by (auto simp: updateAvatar_def recordsKept_def split: if_splits)
next
  case DeactivateProfile
  then show ?thesis
    using assms by (auto simp: deactivateProfile_def Let_def recordsKept_def split: if_splits)
next
  case (PostMessage c)
  then show ?thesis using assms postMessage_recordsKept by simp
next
  case (ReplyToMessage r c)
  then show ?thesis using assms replyToMessage_recordsKept by simp
next
  case (MarkMessageAsDeleted i)
  then have "internal_markMessageAsDeleted i s = Inr s1"
    using assms by (auto simp: markMessageAsDeleted_def split: if_splits)
  then show ?thesis using mark_sameFields sameFields_recordsKept by blast
next
  case (UpdateParameters a b c d)
  then show ?thesis using assms updateParameters_recordsKept by simp
next
  case (TransferOwnership a)
  then show ?thesis
    using assms by (auto simp: transferOwnership_def recordsKept_def split: if_splits)
qed

lemma transact_recordsKept: "recordsKept s (transact e op s)"
  by (cases "call e op s") (simp_all add: transact_def recordsKept_refl call_recordsKept)

lemma run_recordsKept: "recordsKept s (run ops s)"
proof (induction ops arbitrary: s)
  case Nil
  then show ?case by (simp add: recordsKept_refl)
next
  case (Cons x ops)
  obtain e op where x: "x = (e, op)" by (cases x)
  show ?case
    using transact_recordsKept [of s e op] Cons.IH [of "transact e op s"] x recordsKept_trans
    by auto
qed

subsection \<open>The indexes and their counters\<close>

lemma indexes_ok_constructor: "indexes_ok (constructor e)"
  by (auto simp: indexes_ok_def constructor_def live_def PERIOD_SIZE_def)

lemma mark_indexes_ok:
  assumes m: "internal_markMessageAsDeleted i s = Inr s1"
    and i: "i < messageCount s" and ok: "indexes_ok s"
  shows "indexes_ok s1"
proof (cases "isDeleted (messages s i)")
  case True
  with m have "s1 = s" by (simp add: internal_markMessageAsDeleted_def)
  with ok show ?thesis by simp
next
  case False
  have lv: "live s1 = live s - {i}" by (rule mark_live [OF m])
  have il: "i \<in> live s" using False i by (simp add: live_def)
  have mc: "messageCount s1 = messageCount s" by (rule mark_fields(1) [OF m])
  have snd: "\<And>j. sender (messages s1 j) = sender (messages s j)"
    by (rule mark_fields(3) [OF m])
  have rep: "\<And>j. replyToMessageId (messages s1 j) = replyToMessageId (messages s j)"
    by (rule mark_fields(7) [OF m])
  have lists: "messageIdsByPeriod s1 = messageIdsByPeriod s"
    "senderToMessageIds s1 = senderToMessageIds s" "messageReplies s1 = messageReplies s"
    using m False
    by (auto simp: internal_markMessageAsDeleted_def Let_def split: if_splits)
  have arc: "activeReplyCount s1 q = card {j \<in> live s1. replyToMessageId (messages s1 j) = q}"
    if q: "q \<noteq> 0" for q
  proof (cases "q = replyToMessageId (messages s i)")
    case True
    have eq: "{j \<in> live s1. replyToMessageId (messages s1 j) = q}
        = {j \<in> live s. replyToMessageId (messages s j) = q} - {i}"
      using lv rep by auto
    have "activeReplyCount s1 q = activeReplyCount s q - 1"
      using m False True q
      by (auto simp: internal_markMessageAsDeleted_def Let_def split: if_splits)
    then show ?thesis
      using eq card_remove_live(1) [OF il, of "\<lambda>j. replyToMessageId (messages s j) = q"]
        ok q True by (simp add: indexes_ok_def)
  next
    case nq: False
    have eq: "{j \<in> live s1. replyToMessageId (messages s1 j) = q}
        = {j \<in> live s. replyToMessageId (messages s j) = q}"
      using lv rep nq by auto
    have "activeReplyCount s1 q = activeReplyCount s q"
      using m False nq
      by (auto simp: internal_markMessageAsDeleted_def Let_def split: if_splits)
    then show ?thesis using eq ok q by (simp add: indexes_ok_def)
  qed
  show ?thesis
    unfolding indexes_ok_def using ok arc by (simp add: lists mc snd rep indexes_ok_def)
qed

lemma evict_indexes_ok:
  assumes "evict_oldest_first k s = Inr (s1, log)" "chron_ok s" "indexes_ok s"
  shows "indexes_ok s1"
  using assms
proof (induction k arbitrary: s log)
  case 0
  then show ?case by simp
next
  case (Suc k)
  show ?case
  proof (cases "eligible s")
    case Nil
    then show ?thesis using Suc.prems by simp
  next
    case (Cons i es)
    then obtain s2 where m: "internal_markMessageAsDeleted i s = Inr s2"
      using Suc.prems by (auto split: sum.splits)
    then obtain log2 where r: "evict_oldest_first k s2 = Inr (s1, log2)"
      using Suc.prems Cons by (auto split: sum.splits)
    have "i \<in> set (eligible s)" using Cons by simp
    then have "i < messageCount s" using Suc.prems(2) by (simp add: eligible_def chron_ok_def)
    then have "indexes_ok s2" using mark_indexes_ok [OF m] Suc.prems(3) by simp
    moreover have "chron_ok s2" by (rule mark_chron_ok [OF m Suc.prems(2)])
    ultimately show ?thesis using Suc.IH [OF r] by simp
  qed
qed

lemma deleteOldestMessages_indexes_ok:
  assumes d: "deleteOldestMessages n s = Inr s1" and ch: "chron_ok s" and ok: "indexes_ok s"
  shows "indexes_ok s1"
proof -
  obtain log where "evict_oldest_first (min n (totalActiveMessages s)) s = Inr (s1, log)"
    using d deleteOldestMessages_evict [OF ch, of n] by (auto split: sum.splits prod.splits)
  then show ?thesis using evict_indexes_ok ch ok by blast
qed

lemma evictIfFull_indexes_ok:
  assumes "(if totalActiveMessages s \<ge> maxActiveMessages s
            then deleteOldestMessages 1 s else Inr s) = Inr s2"
    and "chron_ok s" "indexes_ok s"
  shows "indexes_ok s2"
  using assms deleteOldestMessages_indexes_ok [of 1 s s2] by (auto split: if_splits)

lemma filter_upt_snoc:
  assumes "a \<le> n" "\<And>j. j < n \<Longrightarrow> P j = Q j"
  shows "filter P [a..<Suc n] = filter Q [a..<n] @ (if P n then [n] else [])"
proof -
  have "filter P [a..<n] = filter Q [a..<n]"
    using assms(2) by (intro filter_cong) auto
  then show ?thesis using assms(1) by simp
qed

lemma append_indexes:
  assumes a: "appendMessage e c r s = Inr s1" and ch: "chron_ok s" and ok: "indexes_ok s"
  shows "messageIdsByPeriod s1 p = filter (\<lambda>i. i div PERIOD_SIZE = p) [0..<messageCount s1]"
    and "senderToMessageIds s1 b
          = filter (\<lambda>i. sender (messages s1 i) = b) [1..<messageCount s1]"
    and "q \<noteq> 0 \<Longrightarrow> filter (\<lambda>i. replyToMessageId (messages s1 i) = q) [1..<messageCount s1]
          = messageReplies s q @ (if q = r then [messageCount s] else [])"
    and "q \<noteq> 0 \<Longrightarrow> card {i \<in> live s1. replyToMessageId (messages s1 i) = q}
          = activeReplyCount s q + (if q = r then 1 else 0)"
proof -
  have mc: "messageCount s1 = Suc (messageCount s)" using append_fields(1) [OF a] by simp
  have pos: "1 \<le> messageCount s" using ch by (simp add: chron_ok_def)
  have ms: "\<And>j. j < messageCount s \<Longrightarrow> messages s1 j = messages s j"
    using append_fields(2) [OF a] by simp
  have new: "sender (messages s1 (messageCount s)) = msg_sender e"
    "replyToMessageId (messages s1 (messageCount s)) = r"
    using append_fields(2) [OF a] by simp_all
  have lv: "live s1 = insert (messageCount s) (live s)" by (rule append_live [OF a])
  have per: "messageIdsByPeriod s1 =
      (messageIdsByPeriod s)(messageCount s div PERIOD_SIZE :=
         messageIdsByPeriod s (messageCount s div PERIOD_SIZE) @ [messageCount s])"
    and sen: "senderToMessageIds s1 =
      (senderToMessageIds s)(msg_sender e := senderToMessageIds s (msg_sender e) @ [messageCount s])"
    using a by (auto simp: appendMessage_def Let_def split: if_splits)
  show "messageIdsByPeriod s1 p = filter (\<lambda>i. i div PERIOD_SIZE = p) [0..<messageCount s1]"
    using ok filter_upt_snoc [of 0 "messageCount s" "\<lambda>i. i div PERIOD_SIZE = p"
        "\<lambda>i. i div PERIOD_SIZE = p"]
    unfolding mc per by (auto simp: indexes_ok_def)
  show "senderToMessageIds s1 b
          = filter (\<lambda>i. sender (messages s1 i) = b) [1..<messageCount s1]"
    using ok pos ms new filter_upt_snoc [of 1 "messageCount s"
        "\<lambda>i. sender (messages s1 i) = b" "\<lambda>i. sender (messages s i) = b"]
    unfolding mc sen by (auto simp: indexes_ok_def)
  show "filter (\<lambda>i. replyToMessageId (messages s1 i) = q) [1..<messageCount s1]
          = messageReplies s q @ (if q = r then [messageCount s] else [])" if "q \<noteq> 0"
    using that ok pos ms new filter_upt_snoc [of 1 "messageCount s"
        "\<lambda>i. replyToMessageId (messages s1 i) = q" "\<lambda>i. replyToMessageId (messages s i) = q"]
    unfolding mc by (auto simp: indexes_ok_def)
  show "card {i \<in> live s1. replyToMessageId (messages s1 i) = q}
          = activeReplyCount s q + (if q = r then 1 else 0)" if "q \<noteq> 0"
  proof (cases "q = r")
    case True
    then show ?thesis
      using that ok ms new lv card_insert_live [of "\<lambda>j. replyToMessageId (messages s1 j) = q" s
          "\<lambda>j. replyToMessageId (messages s j) = q"]
      by (simp add: indexes_ok_def)
  next
    case False
    then show ?thesis
      using that ok ms new lv card_keep_live [of "\<lambda>j. replyToMessageId (messages s1 j) = q" s
          "\<lambda>j. replyToMessageId (messages s j) = q"]
      by (simp add: indexes_ok_def)
  qed
qed

lemma postMessage_indexes_ok:
  assumes p: "postMessage e c s = Inr s1" and co: "consistent s" and ok: "indexes_ok s"
  shows "indexes_ok s1"
proof -
  obtain s2 where ev: "(if totalActiveMessages s \<ge> maxActiveMessages s
            then deleteOldestMessages 1 s else Inr s) = Inr s2"
    and a: "appendMessage e c 0 s2 = Inr s1"
    using postMessage_steps [OF p] by blast
  have ch: "chron_ok s" using co by (simp add: consistent_def)
  have ok2: "indexes_ok s2" by (rule evictIfFull_indexes_ok [OF ev ch ok])
  have ch2: "chron_ok s2"
    using ev co deleteOldestMessages_consistent [of 1 s s2]
    by (auto simp: consistent_def split: if_splits)
  have keep: "messageReplies s1 = messageReplies s2" "activeReplyCount s1 = activeReplyCount s2"
    using append_fields(6,7) [OF a] by simp_all
  show ?thesis
    unfolding indexes_ok_def
    using append_indexes [OF a ch2 ok2] keep by simp
qed

lemma replyToMessage_indexes_ok:
  assumes p: "replyToMessage e r c s = Inr s1" and co: "consistent s" and ok: "indexes_ok s"
  shows "indexes_ok s1"
proof -
  obtain s2 s3 where ev: "(if totalActiveMessages s \<ge> maxActiveMessages s
            then deleteOldestMessages 1 s else Inr s) = Inr s2"
    and a: "appendMessage e c r s2 = Inr s3"
    and s1: "s1 = s3\<lparr>
        messageReplies := (messageReplies s3)(r := messageReplies s3 r @ [messageCount s2]),
        activeReplyCount := (activeReplyCount s3)(r := activeReplyCount s3 r + 1)\<rparr>"
    using replyToMessage_steps [OF p] by blast
  have ch: "chron_ok s" using co by (simp add: consistent_def)
  have ok2: "indexes_ok s2" by (rule evictIfFull_indexes_ok [OF ev ch ok])
  have ch2: "chron_ok s2"
    using ev co deleteOldestMessages_consistent [of 1 s s2]
    by (auto simp: consistent_def split: if_splits)
  have keep: "messageReplies s3 = messageReplies s2" "activeReplyCount s3 = activeReplyCount s2"
    using append_fields(6,7) [OF a] by simp_all
  have same: "messages s1 = messages s3" "messageCount s1 = messageCount s3"
    "messageIdsByPeriod s1 = messageIdsByPeriod s3"
    "senderToMessageIds s1 = senderToMessageIds s3" "live s1 = live s3"
    by (simp_all add: s1 live_def)
  have mr: "messageReplies s1 q = messageReplies s2 q @ (if q = r then [messageCount s2] else [])"
    and ar: "activeReplyCount s1 q = activeReplyCount s2 q + (if q = r then 1 else 0)" for q
    by (simp_all add: s1 keep)
  show ?thesis
    unfolding indexes_ok_def same
    using append_indexes [OF a ch2 ok2] mr ar by simp
qed

lemma indexes_ok_config:
  "indexes_ok (s\<lparr>maxMessageLength := a, messageCooldown := b, maxReturnCount := c,
       maxActiveMessages := d\<rparr>) = indexes_ok s"
  by (simp add: indexes_ok_def live_def)

lemma call_indexes_ok:
  assumes ca: "call e op s = Inr s1" and co: "consistent s" and ok: "indexes_ok s"
  shows "indexes_ok s1"
proof (cases op)
  case (UpdateProfile n a)
  then show ?thesis
    using ca ok
    by (auto simp: updateProfile_def Let_def indexes_ok_def live_def split: if_splits)
next
  case (UpdateAvatar a)
  then show ?thesis
    using ca ok by (auto simp: updateAvatar_def indexes_ok_def live_def split: if_splits)
next
  case DeactivateProfile
  then show ?thesis
    using ca ok
    by (auto simp: deactivateProfile_def Let_def indexes_ok_def live_def split: if_splits)
next
  case (PostMessage c)
  then show ?thesis using ca co ok postMessage_indexes_ok by simp
next
  case (ReplyToMessage r c)
  then show ?thesis using ca co ok replyToMessage_indexes_ok by simp
next
  case (MarkMessageAsDeleted i)
  then have "internal_markMessageAsDeleted i s = Inr s1" "i < messageCount s"
    using ca by (auto simp: markMessageAsDeleted_def split: if_splits)
  then show ?thesis using mark_indexes_ok ok by blast
next
  case (UpdateParameters a b c d)
  define s0 where "s0 = s\<lparr>maxMessageLength := a, messageCooldown := b, maxReturnCount := c,
       maxActiveMessages := d\<rparr>"
  have ok0: "indexes_ok s0" using ok by (simp add: s0_def indexes_ok_config)
  have ch0: "chron_ok s0" using co by (simp add: s0_def consistent_def chron_ok_def)
  have "s1 = s0 \<or> (\<exists>n. deleteOldestMessages n s0 = Inr s1)"
    using ca UpdateParameters
    by (auto simp: updateParameters_def Let_def s0_def split: if_splits)
  then show ?thesis using ok0 ch0 deleteOldestMessages_indexes_ok by blast
next
  case (TransferOwnership a)
  then show ?thesis
    using ca ok by (auto simp: transferOwnership_def indexes_ok_def live_def split: if_splits)
qed

lemma reachable_indexes_ok: "reachable s \<Longrightarrow> indexes_ok s"
proof (induction rule: reachable.induct)
  case (reachable_init e)
  show ?case by (rule indexes_ok_constructor)
next
  case (reachable_step s e op s1)
  show ?case
    using call_indexes_ok [OF reachable_step.hyps(2)]
      reachable_consistent [OF reachable_step.hyps(1)] reachable_step.IH by simp
qed

text \<open>
  In a reachable storage every counter but the reply counter of id 0 is the number of
  non-deleted ids of its index.
\<close>

lemma length_filter_live:
  assumes "chron_ok s" "a \<le> 1"
  shows "length (filter (\<lambda>i. \<not> isDeleted (messages s i)) (filter P [a..<messageCount s]))
           = card {i \<in> live s. P i}"
proof -
  have "distinct (filter (\<lambda>i. \<not> isDeleted (messages s i)) (filter P [a..<messageCount s]))"
    by simp
  then have "length (filter (\<lambda>i. \<not> isDeleted (messages s i)) (filter P [a..<messageCount s]))
      = card (set (filter (\<lambda>i. \<not> isDeleted (messages s i)) (filter P [a..<messageCount s])))"
    by (simp only: distinct_card)
  moreover have "set (filter (\<lambda>i. \<not> isDeleted (messages s i)) (filter P [a..<messageCount s]))
      = {i \<in> live s. P i}"
  proof -
    have "a \<le> i" if "i \<in> live s" for i
    proof -
      have "i \<noteq> 0"
      proof
        assume "i = 0"
        then show False using that assms(1) by (simp add: live_def chron_ok_def)
      qed
      then show ?thesis using assms(2) by simp
    qed
    then show ?thesis by (auto simp: live_def)
  qed
  ultimately show ?thesis by simp
qed

lemma reachable_counters_match_indexes:
  assumes "reachable s"
  shows "activeMessageCountByPeriod s p
           = length (filter (\<lambda>i. \<not> isDeleted (messages s i)) (messageIdsByPeriod s p))"
    and "activeSenderMessageCount s a
           = length (filter (\<lambda>i. \<not> isDeleted (messages s i)) (senderToMessageIds s a))"
    and "q \<noteq> 0 \<Longrightarrow> activeReplyCount s q
           = length (filter (\<lambda>i. \<not> isDeleted (messages s i)) (messageReplies s q))"
    and "totalActiveMessages s
           = length (filter (\<lambda>i. \<not> isDeleted (messages s i)) [0..<messageCount s])"
proof -
  have c: "consistent s" by (rule reachable_consistent [OF assms])
  then have ch: "chron_ok s" and co: "counters_ok s" by (simp_all add: consistent_def)
  have ix: "indexes_ok s" by (rule reachable_indexes_ok [OF assms])
  show "activeMessageCountByPeriod s p
           = length (filter (\<lambda>i. \<not> isDeleted (messages s i)) (messageIdsByPeriod s p))"
    using co ix length_filter_live [OF ch, of 0 "\<lambda>i. i div PERIOD_SIZE = p"]
    by (simp add: counters_ok_def indexes_ok_def)
  show "activeSenderMessageCount s a
           = length (filter (\<lambda>i. \<not> isDeleted (messages s i)) (senderToMessageIds s a))"
    using co ix length_filter_live [OF ch, of 1 "\<lambda>i. sender (messages s i) = a"]
    by (simp add: counters_ok_def indexes_ok_def)
  show "activeReplyCount s q
           = length (filter (\<lambda>i. \<not> isDeleted (messages s i)) (messageReplies s q))"
    if "q \<noteq> 0"
    using that ix length_filter_live [OF ch, of 1 "\<lambda>i. replyToMessageId (messages s i) = q"]
    by (simp add: indexes_ok_def)
  show "totalActiveMessages s
           = length (filter (\<lambda>i. \<not> isDeleted (messages s i)) [0..<messageCount s])"
    using co length_filter_live [OF ch, of 0 "\<lambda>i. True"]
    by (simp add: counters_ok_def)
qed

subsection \<open>What the two top-level queries return\<close>

text \<open>
  The result of each query: the live top-level records it found, newest first, and then
  zero records up to the length it allocated from \<open>totalActiveMessages\<close>.
\<close>

lemma latestLoop_result:
  assumes "length result = n" "k \<le> n"
  shows "latestLoop xs k n result s =
           take k result
           @ map (messages s) (take (n - k) (filter (eligibleRecord s) xs))
           @ drop (k + length (take (n - k) (filter (eligibleRecord s) xs))) result"
  using assms
proof (induction xs arbitrary: k result)
  case Nil
  then show ?case by simp
next
  case (Cons x rest)
  show ?case
  proof (cases "k < n")
    case False
    then have "k = n" using Cons.prems by simp
    then show ?thesis using Cons.prems by simp
  next
    case kn: True
    show ?thesis
    proof (cases "eligibleRecord s x")
      case False
      then have "latestLoop (x # rest) k n result s = latestLoop rest k n result s"
        using kn by (auto simp: eligibleRecord_def)
      then show ?thesis using Cons.IH [OF Cons.prems] False by simp
    next
      case True
      have len: "length (result[k := messages s x]) = n" using Cons.prems by simp
      have step: "latestLoop (x # rest) k n result s
          = latestLoop rest (k + 1) n (result[k := messages s x]) s"
        using kn True by (simp add: eligibleRecord_def Let_def)
      have tk: "take (k + 1) (result[k := messages s x]) = take k result @ [messages s x]"
        using kn Cons.prems by (simp add: take_Suc_conv_app_nth)
      have nk: "n - k = Suc (n - (k + 1))" using kn by simp
      show ?thesis
        unfolding step
        using Cons.IH [OF len, of "k + 1"] kn True tk
        by (simp add: nk)
    qed
  qed
qed

lemma getLatestMessages_result:
  assumes "count \<le> maxReturnCount s"
  shows "getLatestMessages count s =
           Inr (map (messages s)
                  (take (min count (totalActiveMessages s))
                     (filter (eligibleRecord s) (rev (chronologicalMessageIds s))))
                @ replicate
                    (min count (totalActiveMessages s)
                       - length (take (min count (totalActiveMessages s))
                           (filter (eligibleRecord s) (rev (chronologicalMessageIds s)))))
                    emptyMessage)"
proof -
  define rc where "rc = min count (totalActiveMessages s)"
  have rc: "(if count < totalActiveMessages s then count else totalActiveMessages s) = rc"
    by (simp add: rc_def)
  show ?thesis
  proof (cases "rc = 0")
    case True
    then show ?thesis
      using assms unfolding getLatestMessages_def Let_def rc rc_def [symmetric] by simp
  next
    case False
    have "latestLoop (rev (chronologicalMessageIds s)) 0 rc (replicate rc emptyMessage) s =
        map (messages s) (take rc (filter (eligibleRecord s) (rev (chronologicalMessageIds s))))
        @ replicate (rc - length (take rc
              (filter (eligibleRecord s) (rev (chronologicalMessageIds s))))) emptyMessage"
      using latestLoop_result [of "replicate rc emptyMessage" rc 0
          "rev (chronologicalMessageIds s)" s]
      by simp
    then show ?thesis
      using assms False unfolding getLatestMessages_def Let_def rc rc_def [symmetric] by simp
  qed
qed

lemma pageLoop_result:
  assumes "length result = rs" "ri = ac - st" "ri \<le> rs"
  shows "pageLoop xs ac ri st rs result s =
           take ri result
           @ map (messages s) (take (rs - ri) (drop (st - ac) (filter (eligibleRecord s) xs)))
           @ drop (ri + length (take (rs - ri)
                                  (drop (st - ac) (filter (eligibleRecord s) xs)))) result"
  using assms
proof (induction xs arbitrary: ac ri result)
  case Nil
  then show ?case by simp
next
  case (Cons x rest)
  show ?case
  proof (cases "ri < rs")
    case False
    then have "ri = rs" using Cons.prems by simp
    then show ?thesis using Cons.prems by simp
  next
    case lt: True
    show ?thesis
    proof (cases "eligibleRecord s x")
      case False
      have "\<not> ac \<ge> st + rs" using lt Cons.prems(2) by simp
      then have "pageLoop (x # rest) ac ri st rs result s = pageLoop rest ac ri st rs result s"
        using lt False by (auto simp: eligibleRecord_def)
      then show ?thesis using Cons.IH [OF Cons.prems] False by simp
    next
      case el: True
      show ?thesis
      proof (cases "ac \<ge> st")
        case before: False
        then have ri0: "ri = 0" using Cons.prems(2) by simp
        have nb: "\<not> ac + 1 \<ge> st + rs" using before lt by simp
        have step: "pageLoop (x # rest) ac ri st rs result s
            = pageLoop rest (ac + 1) ri st rs result s"
          using lt el before nb by (simp add: eligibleRecord_def Let_def)
        have ri1: "ri = (ac + 1) - st" using before ri0 by simp
        have dr: "st - ac = Suc (st - (ac + 1))" using before by simp
        show ?thesis
          unfolding step
          using Cons.IH [OF Cons.prems(1) ri1 Cons.prems(3)] el by (simp add: dr)
      next
        case inside: True
        have len: "length (result[ri := messages s x]) = rs" using Cons.prems by simp
        have tk: "take (ri + 1) (result[ri := messages s x]) = take ri result @ [messages s x]"
          using lt Cons.prems by (simp add: take_Suc_conv_app_nth)
        have d0: "st - ac = 0" "st - Suc ac = 0" using inside by simp_all
        show ?thesis
        proof (cases "ac + 1 \<ge> st + rs")
          case True
          then have last: "rs - ri = Suc 0" using lt Cons.prems(2) inside by simp
          have "pageLoop (x # rest) ac ri st rs result s = result[ri := messages s x]"
            using lt el inside True by (simp add: eligibleRecord_def Let_def)
          moreover have "result[ri := messages s x]
              = take ri result @ [messages s x] @ drop (ri + 1) result"
            using lt Cons.prems by (simp add: upd_conv_take_nth_drop)
          ultimately show ?thesis using el by (simp add: d0 last)
        next
          case False
          have step: "pageLoop (x # rest) ac ri st rs result s
              = pageLoop rest (ac + 1) (ri + 1) st rs (result[ri := messages s x]) s"
            using lt el inside False by (simp add: eligibleRecord_def Let_def)
          have ri1: "ri + 1 = (ac + 1) - st" using inside Cons.prems(2) by simp
          have le1: "ri + 1 \<le> rs" using lt by simp
          have nk: "rs - ri = Suc (rs - (ri + 1))" using lt by simp
          show ?thesis
            unfolding step
            using Cons.IH [OF len ri1 le1] el tk by (simp add: d0 nk)
        qed
      qed
    qed
  qed
qed

lemma getMessagesWithPagination_result:
  assumes "0 < pageSize" "pageSize \<le> maxReturnCount s"
    and "page * pageSize + pageSize \<le> MAX_UINT256"
  shows "getMessagesWithPagination page pageSize s =
           Inr (map (messages s)
                  (take (min pageSize (totalActiveMessages s - page * pageSize))
                     (drop (page * pageSize)
                        (filter (eligibleRecord s) (rev (chronologicalMessageIds s)))))
                @ replicate
                    (min pageSize (totalActiveMessages s - page * pageSize)
                       - length (take (min pageSize (totalActiveMessages s - page * pageSize))
                           (drop (page * pageSize)
                              (filter (eligibleRecord s) (rev (chronologicalMessageIds s))))))
                    emptyMessage)"
proof (cases "page * pageSize \<ge> totalActiveMessages s")
  case True
  then show ?thesis using assms by (simp add: getMessagesWithPagination_def)
next
  case False
  define st where "st = page * pageSize"
  define rs where "rs = min pageSize (totalActiveMessages s - st)"
  have rs: "(if st + pageSize > totalActiveMessages s
             then totalActiveMessages s - st else pageSize) = rs"
    using False by (auto simp: rs_def st_def)
  have "pageLoop (rev (chronologicalMessageIds s)) 0 0 st rs (replicate rs emptyMessage) s =
      map (messages s) (take rs (drop st
          (filter (eligibleRecord s) (rev (chronologicalMessageIds s)))))
      @ replicate (rs - length (take rs (drop st
          (filter (eligibleRecord s) (rev (chronologicalMessageIds s)))))) emptyMessage"
    using pageLoop_result [of "replicate rs emptyMessage" rs 0 0 st
        "rev (chronologicalMessageIds s)" s]
    by simp
  then show ?thesis
    using assms False
    unfolding getMessagesWithPagination_def Let_def st_def [symmetric] rs
      rs_def [symmetric]
    by simp
qed

text \<open>
  When every live record is top-level, the two queries return the newest-first sequence
  of live top-level records and its slices, with no zero record.
\<close>

lemma getLatestMessages_exact:
  assumes "count \<le> maxReturnCount s" "length (eligible s) = totalActiveMessages s"
  shows "getLatestMessages count s = Inr (map (messages s) (take count (rev (eligible s))))"
proof -
  have e: "filter (eligibleRecord s) (rev (chronologicalMessageIds s)) = rev (eligible s)"
    by (simp add: eligible_def rev_filter)
  show ?thesis
    unfolding getLatestMessages_result [OF assms(1)] e
    using assms(2) by (simp add: min_def)
qed

lemma getMessagesWithPagination_exact:
  assumes "0 < pageSize" "pageSize \<le> maxReturnCount s"
    and "page * pageSize + pageSize \<le> MAX_UINT256"
    and "length (eligible s) = totalActiveMessages s"
  shows "getMessagesWithPagination page pageSize s =
           Inr (map (messages s) (take pageSize (drop (page * pageSize) (rev (eligible s)))))"
proof -
  have e: "filter (eligibleRecord s) (rev (chronologicalMessageIds s)) = rev (eligible s)"
    by (simp add: eligible_def rev_filter)
  have "take (min pageSize (totalActiveMessages s - page * pageSize))
          (drop (page * pageSize) (rev (eligible s)))
        = take pageSize (drop (page * pageSize) (rev (eligible s)))"
    using assms(4) by (simp add: min_def)
  moreover have "length (take pageSize (drop (page * pageSize) (rev (eligible s))))
        = min pageSize (totalActiveMessages s - page * pageSize)"
    using assms(4) by (simp add: min_def)
  ultimately show ?thesis
    unfolding getMessagesWithPagination_result [OF assms(1,2,3)] e by simp
qed

subsection \<open>Small facts for the evaluations\<close>

lemma reachable_board_sentinel_reply: "reachable board_sentinel_reply"
  unfolding board_sentinel_reply_def by (intro reachable_run reachable_init)

lemma replicate_two: "replicate 2 x = [x, x]"
  by (simp add: numeral_2_eq_2)

lemma reachable_board_post_reply: "reachable board_post_reply"
  unfolding board_post_reply_def by (intro reachable_run reachable_init)

lemma reachable_board_cap2: "reachable board_cap2"
  unfolding board_cap2_def by (intro reachable_run reachable_init)

lemma reachable_board_alice: "reachable board_alice"
  unfolding board_alice_def by (intro reachable_run reachable_init)

section \<open>The claims\<close>

subsection \<open>C1\<close>

text \<open>
  C1 at a reachable storage where it fails: after a reply to id 0 that is then deleted,
  \<open>messageReplies 0\<close> holds no live id, yet \<open>activeReplyCount 0\<close> is 1. The reply counter of
  the parent is incremented by \<open>replyToMessage\<close> whatever the parent is, and decremented by
  \<open>_markMessageAsDeleted\<close> only when \<open>replyToMessageId \<noteq> 0\<close>.
\<close>

theorem C1_reply_counter_of_id_0:
  "reachable board_sentinel_reply
   \<and> messageReplies board_sentinel_reply 0 = [1]
   \<and> isDeleted (messages board_sentinel_reply 1)
   \<and> length (filter (\<lambda>i. \<not> isDeleted (messages board_sentinel_reply i))
        (messageReplies board_sentinel_reply 0)) = 0
   \<and> activeReplyCount board_sentinel_reply 0 = 1"
  using reachable_board_sentinel_reply
  by (simp add: board_sentinel_reply_def model_defs)

subsection \<open>C2\<close>

text \<open>
  C2, as stated, fails: at capacity 1, a post and two replies to it all commit, the
  second reply finds nothing to evict (the post is gone, replies are skipped), and the
  store ends with two active records.
\<close>

theorem C2_counterexample:
  "messageCount board_cap1 = 1 \<and> messageCount board_over = 4
   \<and> maxActiveMessages board_over = 1 \<and> totalActiveMessages board_over = 2
   \<and> totalActiveMessages board_over \<noteq> maxActiveMessages board_over"
  by (simp add: board_over_def board_cap1_def model_defs)

text \<open>
  C2, amended: from a reachable storage with \<open>totalActiveMessages \<le> maxActiveMessages\<close>,
  along any sequence of creates that all commit and that find an eligible record whenever
  they find the store at capacity, the total ends at
  \<open>min (total before + number of creates) maxActiveMessages\<close>: once the sequence would
  push the total above the capacity, the total equals the capacity.
\<close>

theorem C2_creates_fill_to_capacity:
  assumes "reachable s" and "totalActiveMessages s \<le> maxActiveMessages s"
    and "createsWithRoom ops s"
  shows "totalActiveMessages (run ops s)
           = min (totalActiveMessages s + length ops) (maxActiveMessages s)
       \<and> maxActiveMessages (run ops s) = maxActiveMessages s"
  using assms
proof (induction ops arbitrary: s)
  case Nil
  then show ?case by simp
next
  case (Cons x ops)
  obtain e op where x: "x = (e, op)" by (cases x)
  obtain s1 where ca: "call e op s = Inr s1" and cr: "isCreate op"
    and room: "totalActiveMessages s < maxActiveMessages s \<or> eligible s \<noteq> []"
    and rest: "createsWithRoom ops s1"
    using Cons.prems(3) x by (auto split: sum.splits)
  have c: "consistent s" by (rule reachable_consistent [OF Cons.prems(1)])
  have r1: "reachable s1" by (rule reachable_step [OF Cons.prems(1) ca])
  have t1: "totalActiveMessages s1 =
           (if totalActiveMessages s \<ge> maxActiveMessages s \<and> eligible s \<noteq> []
            then totalActiveMessages s else totalActiveMessages s + 1)"
    and m1: "maxActiveMessages s1 = maxActiveMessages s"
    using create_total [OF cr ca c] by simp_all
  have le1: "totalActiveMessages s1 \<le> maxActiveMessages s1"
    using t1 m1 Cons.prems(2) room by (auto split: if_splits)
  have run1: "run (x # ops) s = run ops s1" using x ca by (simp add: transact_def)
  show ?case
    unfolding run1 using Cons.IH [OF r1 le1 rest] t1 m1 Cons.prems(2) room
    by (auto split: if_splits)
qed

theorem C2_creates_fill_to_capacity_witness:
  "reachable board_cap2
   \<and> totalActiveMessages board_cap2 = 0 \<and> maxActiveMessages board_cap2 = 2
   \<and> createsWithRoom [(tx 1 1000, PostMessage ''a''), (tx 1 2000, PostMessage ''b''),
        (tx 1 3000, PostMessage ''c'')] board_cap2
   \<and> totalActiveMessages (run [(tx 1 1000, PostMessage ''a''), (tx 1 2000, PostMessage ''b''),
        (tx 1 3000, PostMessage ''c'')] board_cap2) = 2"
proof -
  have t: "totalActiveMessages board_cap2 = 0" "maxActiveMessages board_cap2 = 2"
    by (simp_all add: board_cap2_def model_defs)
  have r: "createsWithRoom [(tx 1 1000, PostMessage ''a''), (tx 1 2000, PostMessage ''b''),
        (tx 1 3000, PostMessage ''c'')] board_cap2"
    by (simp add: board_cap2_def model_defs eligible_def eligibleRecord_def)
  show ?thesis
    using C2_creates_fill_to_capacity [OF reachable_board_cap2 _ r] t r reachable_board_cap2
    by simp
qed

subsection \<open>C3\<close>



subsection \<open>C4\<close>

text \<open>
  C4: for every storage and every \<open>n\<close>, a run of the eviction engine that commits
  leaves the deletion flag of every record with \<open>replyToMessageId \<noteq> 0\<close> as it was, and
  leaves every entry of \<open>activeReplyCount\<close> as it was. (A run that reverts changes
  nothing at all.)
\<close>

theorem C4_eviction_spares_replies:
  assumes "deleteOldestMessages n s = Inr s1"
  shows "(\<forall>i. replyToMessageId (messages s i) \<noteq> 0
            \<longrightarrow> isDeleted (messages s1 i) = isDeleted (messages s i))
       \<and> (\<forall>q. activeReplyCount s1 q = activeReplyCount s q)"
  using deleteOldestMessages_frame [OF assms] by (simp add: repliesUntouched_def)

theorem C4_eviction_spares_replies_witness:
  "\<exists>s1. deleteOldestMessages 1 board_post_reply = Inr s1
      \<and> replyToMessageId (messages board_post_reply 2) = 1
      \<and> isDeleted (messages s1 1) \<and> \<not> isDeleted (messages s1 2)
      \<and> activeReplyCount s1 1 = 1"
proof -
  have "\<exists>s1. deleteOldestMessages 1 board_post_reply = Inr s1 \<and> isDeleted (messages s1 1)"
    by (simp add: board_post_reply_def model_defs)
  then obtain s1 where ev: "deleteOldestMessages 1 board_post_reply = Inr s1"
    and del: "isDeleted (messages s1 1)" by blast
  have b: "replyToMessageId (messages board_post_reply 2) = 1"
    "\<not> isDeleted (messages board_post_reply 2)" "activeReplyCount board_post_reply 1 = 1"
    by (simp_all add: board_post_reply_def model_defs)
  show ?thesis
    using C4_eviction_spares_replies [OF ev] ev del b by auto
qed

subsection \<open>C5\<close>

text \<open>
  C5 at a reachable storage where it fails: with one live post and one live reply,
  \<open>getLatestMessages 2\<close> returns two elements, and the second is the zero record, which is
  no record of the store. The array is sized by \<open>totalActiveMessages\<close>, which counts the
  reply; the loop writes top-level records only.
\<close>

theorem C5_latest_padded:
  "reachable board_post_reply
   \<and> totalActiveMessages board_post_reply = 2 \<and> maxReturnCount board_post_reply = 50
   \<and> messageCount board_post_reply = 3
   \<and> getLatestMessages 2 board_post_reply = Inr [messages board_post_reply 1, emptyMessage]
   \<and> emptyMessage \<noteq> messages board_post_reply 0
   \<and> emptyMessage \<noteq> messages board_post_reply 1
   \<and> emptyMessage \<noteq> messages board_post_reply 2"
  using reachable_board_post_reply
  by (simp add: board_post_reply_def model_defs replicate_two)

subsection \<open>C6\<close>

text \<open>
  C6 at the same storage: the only live top-level record is id 1, so the sequence has one
  element. Page 0 of size 2 carries a zero record after it; page 1 of size 1 starts past
  the end and is not empty; and a page number whose product with the page size leaves
  \<open>uint256\<close> reverts.
\<close>

theorem C6_pages_padded:
  "reachable board_post_reply
   \<and> getLatestMessages 1 board_post_reply = Inr [messages board_post_reply 1]
   \<and> getMessagesWithPagination 0 2 board_post_reply
       = Inr [messages board_post_reply 1, emptyMessage]
   \<and> getMessagesWithPagination 1 1 board_post_reply = Inr [emptyMessage]
   \<and> getMessagesWithPagination (2 ^ 255) 2 board_post_reply = Inl Panic"
  using reachable_board_post_reply
  by (simp add: board_post_reply_def model_defs replicate_two)

subsection \<open>C7\<close>

text \<open>
  C7, as stated, fails: with no profile and an empty body \<open>postMessage\<close> reports the empty
  body, not the missing profile; \<open>replyToMessage\<close> with an unknown parent, an empty body and
  no profile reports the unknown parent.
\<close>

theorem C7_counterexample:
  "length (profileNickname (addressToProfile (constructor deployer) (msg_sender (tx 5 1000)))) = 0
   \<and> postMessage (tx 5 1000) [] (constructor deployer) = Inl MessageEmpty
   \<and> postMessage (tx 5 1000) [] (constructor deployer) \<noteq> Inl CreateProfileFirst
   \<and> replyToMessage (tx 5 1000) 7 [] (constructor deployer) = Inl OriginalMessageDoesNotExist
   \<and> replyToMessage (tx 5 1000) 7 [] (constructor deployer) \<noteq> Inl CreateProfileFirst"
  by (simp add: model_defs)

text \<open>
  C7, amended: the checks run in the order of the code: (for a reply) the parent id
  exists, the body is not empty, the body is within the length limit, the cooldown has
  elapsed, a profile exists, the profile is active. The failure reported is the first one
  in that order, and the transaction leaves the storage as it was.
\<close>

theorem C7_checks_in_code_order:
  "(firstFailure (createChecks e c s) = Some err
      \<longrightarrow> postMessage e c s = Inl err \<and> transact e (PostMessage c) s = s)
   \<and> (firstFailure (replyChecks e r c s) = Some err
      \<longrightarrow> replyToMessage e r c s = Inl err \<and> transact e (ReplyToMessage r c) s = s)"
proof -
  have post: "postMessage e c s = Inl err" if "firstFailure (createChecks e c s) = Some err"
    using that by (auto simp: createChecks_def postMessage_def split: if_splits)
  have reply: "replyToMessage e r c s = Inl err"
    if "firstFailure (replyChecks e r c s) = Some err"
    using that
    by (auto simp: replyChecks_def createChecks_def replyToMessage_def split: if_splits)
  show ?thesis using post reply by (auto simp: transact_def)
qed

theorem C7_checks_in_code_order_witness:
  "firstFailure (createChecks (tx 5 1000) [] (constructor deployer)) = Some MessageEmpty
   \<and> postMessage (tx 5 1000) [] (constructor deployer) = Inl MessageEmpty
   \<and> transact (tx 5 1000) (PostMessage []) (constructor deployer) = constructor deployer
   \<and> firstFailure (replyChecks (tx 5 1000) 7 [] (constructor deployer))
       = Some OriginalMessageDoesNotExist
   \<and> replyToMessage (tx 5 1000) 7 [] (constructor deployer) = Inl OriginalMessageDoesNotExist
   \<and> transact (tx 5 1000) (ReplyToMessage 7 []) (constructor deployer) = constructor deployer"
proof -
  have f: "firstFailure (createChecks (tx 5 1000) [] (constructor deployer)) = Some MessageEmpty"
    "firstFailure (replyChecks (tx 5 1000) 7 [] (constructor deployer))
       = Some OriginalMessageDoesNotExist"
    by (simp_all add: createChecks_def replyChecks_def constructor_def)
  show ?thesis
    using C7_checks_in_code_order [of "tx 5 1000" "[]" "constructor deployer" MessageEmpty]
      C7_checks_in_code_order [of "tx 5 1000" "[]" "constructor deployer"
        OriginalMessageDoesNotExist 7] f
    by simp
qed

subsection \<open>C8\<close>

text \<open>
  C8: a record that exists keeps its sender, content, timestamp, nickname snapshot and
  \<open>replyToMessageId\<close> through every sequence of public transactions (committed or
  reverted), and once deleted it stays deleted.
\<close>

theorem C8_records_immutable:
  assumes "i < messageCount s"
  shows "i < messageCount (run ops s)
       \<and> sender (messages (run ops s) i) = sender (messages s i)
       \<and> content (messages (run ops s) i) = content (messages s i)
       \<and> timestamp (messages (run ops s) i) = timestamp (messages s i)
       \<and> nickname (messages (run ops s) i) = nickname (messages s i)
       \<and> replyToMessageId (messages (run ops s) i) = replyToMessageId (messages s i)
       \<and> (isDeleted (messages s i) \<longrightarrow> isDeleted (messages (run ops s) i))"
  using run_recordsKept [of s ops] assms by (auto simp: recordsKept_def)

theorem C8_records_immutable_witness:
  "1 < messageCount board_post_reply
   \<and> content (messages (run [(tx 9 5000, MarkMessageAsDeleted 1),
         (tx 1 6000, PostMessage ''again''),
         (tx 1 7000, UpdateProfile ''alice2'' ''z'')] board_post_reply) 1) = ''hi''
   \<and> nickname (messages (run [(tx 9 5000, MarkMessageAsDeleted 1),
         (tx 1 6000, PostMessage ''again''),
         (tx 1 7000, UpdateProfile ''alice2'' ''z'')] board_post_reply) 1) = ''alice''
   \<and> messageCount (run [(tx 9 5000, MarkMessageAsDeleted 1),
         (tx 1 6000, PostMessage ''again''),
         (tx 1 7000, UpdateProfile ''alice2'' ''z'')] board_post_reply) = 4
   \<and> isDeleted (messages board_sentinel_reply 1)
   \<and> isDeleted (messages (run [(tx 1 6000, PostMessage ''again'')] board_sentinel_reply) 1)"
proof -
  have b: "1 < messageCount board_post_reply"
    "content (messages board_post_reply 1) = ''hi''"
    "nickname (messages board_post_reply 1) = ''alice''"
    by (simp_all add: board_post_reply_def model_defs)
  have r: "messageCount (run [(tx 9 5000, MarkMessageAsDeleted 1),
         (tx 1 6000, PostMessage ''again''),
         (tx 1 7000, UpdateProfile ''alice2'' ''z'')] board_post_reply) = 4"
    by (simp add: board_post_reply_def model_defs)
  have d: "1 < messageCount board_sentinel_reply" "isDeleted (messages board_sentinel_reply 1)"
    by (simp_all add: board_sentinel_reply_def model_defs)
  show ?thesis
    using C8_records_immutable [OF b(1), of "[(tx 9 5000, MarkMessageAsDeleted 1),
         (tx 1 6000, PostMessage ''again''),
         (tx 1 7000, UpdateProfile ''alice2'' ''z'')]"]
      C8_records_immutable [OF d(1), of "[(tx 1 6000, PostMessage ''again'')]"] b r d
    by simp
qed

subsection \<open>C9\<close>



subsection \<open>C10\<close>

text \<open>
  C10: in a reachable storage with an id left to give, an author with an active profile
  whose cooldown has elapsed can reply to id 0 with a valid body. The call commits. The
  new record has \<open>replyToMessageId = 0\<close>, so it is eligible for eviction and
  \<open>getLatestMessages\<close> returns it as the newest top-level record; all the same its id is
  appended to \<open>messageReplies 0\<close> and \<open>activeReplyCount 0\<close> grows by one.
\<close>

theorem C10_reply_to_sentinel:
  assumes r: "reachable s"
    and room: "messageCount s < MAX_UINT256"
    and body: "0 < length c" "length c \<le> maxMessageLength s"
    and clock: "lastMessageTime s (msg_sender e) \<le> block_timestamp e"
      "messageCooldown s \<le> block_timestamp e - lastMessageTime s (msg_sender e)"
    and profile: "0 < length (profileNickname (addressToProfile s (msg_sender e)))"
      "isActive (addressToProfile s (msg_sender e))"
  shows "\<exists>s1. replyToMessage e 0 c s = Inr s1
           \<and> messageCount s1 = messageCount s + 1
           \<and> replyToMessageId (messages s1 (messageCount s)) = 0
           \<and> \<not> isDeleted (messages s1 (messageCount s))
           \<and> sender (messages s1 (messageCount s)) = msg_sender e
           \<and> content (messages s1 (messageCount s)) = c
           \<and> messageCount s \<in> set (eligible s1)
           \<and> (1 \<le> maxReturnCount s
                \<longrightarrow> getLatestMessages 1 s1 = Inr [messages s1 (messageCount s)])
           \<and> messageReplies s1 0 = messageReplies s 0 @ [messageCount s]
           \<and> activeReplyCount s1 0 = activeReplyCount s 0 + 1"
proof -
  have c: "consistent s" by (rule reachable_consistent [OF r])
  then have pos: "0 < messageCount s" by (simp add: consistent_def chron_ok_def)
  obtain s2 where ev: "(if totalActiveMessages s \<ge> maxActiveMessages s
        then deleteOldestMessages 1 s else Inr s) = Inr s2"
    using evictIfFull_succeeds [OF c] by blast
  have f2: "sameFields s s2 \<and> repliesUntouched s s2"
    using ev deleteOldestMessages_frame [of 1 s s2]
    by (auto simp: sameFields_refl repliesUntouched_refl split: if_splits)
  have c2: "consistent s2"
    using ev c deleteOldestMessages_consistent [of 1 s s2] by (auto split: if_splits)
  have mc2: "messageCount s2 = messageCount s" using f2 by (simp add: sameFields_def)
  obtain s3 where a: "appendMessage e c 0 s2 = Inr s3"
    using append_succeeds [of s2 e c 0] c2 room mc2 by (auto simp: consistent_def)
  have arc: "activeReplyCount s3 0 = activeReplyCount s 0"
    using append_fields(6) [OF a] f2 by (simp add: repliesUntouched_def)
  have mr: "messageReplies s3 0 = messageReplies s 0"
    using append_fields(7) [OF a] f2 by (simp add: sameFields_def)
  have "activeReplyCount s 0 < messageCount s"
    using c by (simp add: consistent_def counters_ok_def)
  then have lt: "activeReplyCount s3 0 < MAX_UINT256" using arc room by simp
  define s1 where "s1 = s3\<lparr>
      messageReplies := (messageReplies s3)(0 := messageReplies s3 0 @ [messageCount s2]),
      activeReplyCount := (activeReplyCount s3)(0 := activeReplyCount s3 0 + 1)\<rparr>"
  have res: "replyToMessage e 0 c s = Inr s1"
    using pos body clock profile ev a lt
    by (simp add: replyToMessage_def s1_def not_less split: if_splits)
  have m1: "messages s1 = messages s3" "messageCount s1 = messageCount s3"
    "chronologicalMessageIds s1 = chronologicalMessageIds s3"
    "totalActiveMessages s1 = totalActiveMessages s3"
    "maxReturnCount s1 = maxReturnCount s3"
    by (simp_all add: s1_def)
  have new: "messages s3 (messageCount s) =
      \<lparr>sender = msg_sender e, content = c, timestamp = block_timestamp e,
       nickname = profileNickname (addressToProfile s2 (msg_sender e)),
       replyToMessageId = 0, isDeleted = False\<rparr>"
    using append_fields(2) [OF a] mc2 by simp
  have ch: "chronologicalMessageIds s3 = chronologicalMessageIds s2 @ [messageCount s]"
    using append_fields(3) [OF a] mc2 by simp
  have el: "messageCount s \<in> set (eligible s1)"
    using new ch m1 by (simp add: eligible_def eligibleRecord_def)
  have mrc: "maxReturnCount s1 = maxReturnCount s"
    using m1 append_fields(10) [OF a] f2 by (simp add: sameFields_def)
  have tot: "0 < totalActiveMessages s1"
    using append_fields(4) [OF a] m1 by simp
  have latest: "getLatestMessages 1 s1 = Inr [messages s1 (messageCount s)]"
    if "1 \<le> maxReturnCount s"
  proof -
    have that: "1 \<le> maxReturnCount s1" using that mrc by simp
    have loop: "latestLoop (rev (chronologicalMessageIds s1)) 0 1 [emptyMessage] s1
        = [messages s1 (messageCount s)]"
      using latestLoop_newest [of s1 "messageCount s" "rev (chronologicalMessageIds s2)"]
        new m1 ch by simp
    show ?thesis
    proof (cases "1 < totalActiveMessages s1")
      case True
      then show ?thesis using loop that by (simp add: getLatestMessages_def)
    next
      case False
      then have "totalActiveMessages s1 = 1" using tot by simp
      then show ?thesis using loop that by (simp add: getLatestMessages_def)
    qed
  qed
  show ?thesis
    using res m1 new el latest mr arc append_fields(1) [OF a] mc2
    by (auto simp: s1_def)
qed

theorem C10_reply_to_sentinel_witness:
  "reachable board_alice \<and> messageCount board_alice = 1
   \<and> (\<exists>s1. replyToMessage (tx 1 1000) 0 ''hi'' board_alice = Inr s1
          \<and> messageCount s1 = 2
          \<and> replyToMessageId (messages s1 1) = 0
          \<and> 1 \<in> set (eligible s1)
          \<and> getLatestMessages 1 s1 = Inr [messages s1 1]
          \<and> messageReplies s1 0 = [1]
          \<and> activeReplyCount s1 0 = 1)"
proof -
  have b: "messageCount board_alice = 1" "messageCount board_alice < MAX_UINT256"
    "length ''hi'' \<le> maxMessageLength board_alice"
    "lastMessageTime board_alice (msg_sender (tx 1 1000)) \<le> block_timestamp (tx 1 1000)"
    "messageCooldown board_alice
       \<le> block_timestamp (tx 1 1000) - lastMessageTime board_alice (msg_sender (tx 1 1000))"
    "0 < length (profileNickname (addressToProfile board_alice (msg_sender (tx 1 1000))))"
    "isActive (addressToProfile board_alice (msg_sender (tx 1 1000)))"
    "maxReturnCount board_alice = 50"
    "messageReplies board_alice 0 = []" "activeReplyCount board_alice 0 = 0"
    by (simp_all add: board_alice_def model_defs)
  show ?thesis
    using C10_reply_to_sentinel [OF reachable_board_alice b(2) _ b(3) b(4) b(5) b(6) b(7)]
      b reachable_board_alice
    by auto
qed

end
